theory Spec2Isabelle
  imports Complex_Main
begin

section \<open>Data model of the OSC client\<close>

text \<open>
  The class \<open>OSCClient\<close> of \<open>src/osc-client.ts\<close> keeps two fields of its own, the map
  \<open>responseCallbacks\<close> and the flag \<open>isConnected\<close>. Everything else it touches lives
  in the JavaScript runtime and in the \<open>osc-js\<close> object: the promises handed to callers,
  the timers made by \<open>setTimeout\<close> and \<open>setInterval\<close>, the datagrams passed to
  \<open>osc.send\<close>, the socket opened by \<open>osc.open\<close> and the lines written by
  \<open>console.error\<close>. The record \<open>world\<close> holds both parts, and every method is a
  function from the world before the call to the world after it.

  JavaScript numbers are modelled as real numbers. Where the program computes with them,
  the rounding of double arithmetic is a parameter \<open>fl\<close> of the model: the result of an
  operation is \<open>fl\<close> of the exact result. Time is a counter of milliseconds.
\<close>

datatype jsval = Num real | Str string | Bool bool | Undefined

datatype error = Error string

datatype outcome = Pending | Fulfilled jsval | Rejected error

text \<open>An outbound \<open>OSC.Message(address, ...args)\<close>.\<close>

record message =
  address :: string
  args :: "jsval list"

text \<open>
  An inbound message as the \<open>"*"\<close> handler reads it: \<open>message.address\<close> and
  \<open>message.args\<close>, where \<open>None\<close> is a missing (falsy) \<open>args\<close> field.
\<close>

record inbound =
  in_address :: string
  in_args :: "jsval list option"

text \<open>
  A pending \<open>setTimeout\<close> of \<open>sendAndReceive\<close>: its deadline, and the \<open>address\<close> and
  the promise (whose \<open>reject\<close> it holds) captured by the closure.
\<close>

type_synonym timer = "nat \<times> string \<times> nat"

record world =
  host :: string
  port :: int
  responseCallbacks :: "string \<rightharpoonup> nat"
  isConnected :: bool
  socket_open :: bool
  sent :: "message list"
  console :: "string list"
  promises :: "outcome list"
  timeouts :: "timer list"
  intervals :: "nat list"
  now :: nat

text \<open>
  \<open>responseCallbacks\<close> maps an address to the \<open>resolve\<close> function of a promise; the
  promise is named by its index in \<open>promises\<close>. \<open>intervals\<close> holds the next due time of
  every \<open>setInterval(() => this.sendCommand("/xremote"), 9000)\<close> that was started; the
  source keeps no handle on them and never clears one.
\<close>

definition new_OSCClient :: "string \<Rightarrow> int \<Rightarrow> world" where
  "new_OSCClient h p =
     \<lparr>host = h, port = p, responseCallbacks = Map.empty, isConnected = False,
      socket_open = False, sent = [], console = [], promises = [], timeouts = [],
      intervals = [], now = 0\<rparr>"

subsection \<open>Promises\<close>

text \<open>Settling a promise that is already settled does nothing.\<close>

definition settle :: "nat \<Rightarrow> outcome \<Rightarrow> world \<Rightarrow> world" where
  "settle p r w =
     (if p < length (promises w) \<and> promises w ! p = Pending
      then w\<lparr>promises := (promises w)[p := r]\<rparr> else w)"

definition resolve :: "nat \<Rightarrow> jsval \<Rightarrow> world \<Rightarrow> world" where
  "resolve p v w = settle p (Fulfilled v) w"

definition reject :: "nat \<Rightarrow> error \<Rightarrow> world \<Rightarrow> world" where
  "reject p e w = settle p (Rejected e) w"

definition promise :: "world \<Rightarrow> nat \<Rightarrow> outcome option" where
  "promise w p = (if p < length (promises w) then Some (promises w ! p) else None)"

section \<open>Transport and correlator\<close>

text \<open>The handler installed by the constructor with \<open>this.osc.on("*", ...)\<close>.\<close>

definition on_message :: "inbound \<Rightarrow> world \<Rightarrow> world" where
  "on_message m w =
     (case responseCallbacks w (in_address m) of
        None \<Rightarrow> w
      | Some callback \<Rightarrow>
          (case in_args m of
             None \<Rightarrow> w
           | Some [] \<Rightarrow> w
           | Some (v # vs) \<Rightarrow>
               (resolve callback v w)
                 \<lparr>responseCallbacks := (responseCallbacks w)(in_address m := None)\<rparr>))"

definition sendCommand :: "string \<Rightarrow> jsval list \<Rightarrow> world \<Rightarrow> world" where
  "sendCommand a as w =
     (if \<not> isConnected w then w\<lparr>console := console w @ [''OSC not connected'']\<rparr>
      else w\<lparr>sent := sent w @ [\<lparr>address = a, args = as\<rparr>]\<rparr>)"

text \<open>
  \<open>connect\<close>: the argument is what \<open>this.osc.open\<close> throws, \<open>None\<close> when it returns.
  The second component is the outcome of the promise that \<open>connect\<close> returns.
\<close>

definition connect :: "error option \<Rightarrow> world \<Rightarrow> world \<times> outcome" where
  "connect thrown w =
     (case thrown of
        None \<Rightarrow>
          (let w1 = w\<lparr>socket_open := True\<rparr>;
               w2 = w1\<lparr>isConnected := True\<rparr>;
               w3 = w2\<lparr>console := console w2 @ [''OSC UDP Port ready'']\<rparr>;
               w4 = sendCommand ''/xcontrol'' [] w3;
               w5 = w4\<lparr>intervals := intervals w4 @ [now w4 + 9000]\<rparr>
           in (w5, Fulfilled Undefined))
      | Some error \<Rightarrow> (w, Rejected error))"

definition close :: "world \<Rightarrow> world" where
  "close w = (w\<lparr>isConnected := False\<rparr>)\<lparr>socket_open := False\<rparr>"

text \<open>
  \<open>sendAndReceive\<close>, statement by statement. The promise executor runs synchronously:
  the callback is stored, the command is sent, the timer is armed. The result is the new
  world and the index of the promise returned to the caller.
\<close>

definition register_callback :: "string \<Rightarrow> world \<Rightarrow> world \<times> nat" where
  "register_callback a w =
     (let p = length (promises w)
      in (w\<lparr>promises := promises w @ [Pending],
            responseCallbacks := (responseCallbacks w)(a \<mapsto> p)\<rparr>, p))"

definition set_timeout :: "string \<Rightarrow> nat \<Rightarrow> world \<Rightarrow> world" where
  "set_timeout a p w = w\<lparr>timeouts := timeouts w @ [(now w + 1000, a, p)]\<rparr>"

definition sendAndReceive_steps :: "string \<Rightarrow> jsval list \<Rightarrow> world \<Rightarrow> world list \<times> nat" where
  "sendAndReceive_steps a as w =
     (let (w1, p) = register_callback a w;
          w2 = sendCommand a as w1;
          w3 = set_timeout a p w2
      in ([w1, w2, w3], p))"

definition sendAndReceive :: "string \<Rightarrow> jsval list \<Rightarrow> world \<Rightarrow> world \<times> nat" where
  "sendAndReceive a as w =
     (let (ws, p) = sendAndReceive_steps a as w in (last ws, p))"

text \<open>The body of the timer callback of \<open>sendAndReceive\<close>.\<close>

definition timeout_error :: "string \<Rightarrow> error" where
  "timeout_error a = Error (''Timeout waiting for response from '' @ a)"

definition timeout_callback :: "string \<Rightarrow> nat \<Rightarrow> world \<Rightarrow> world" where
  "timeout_callback a p w =
     (if responseCallbacks w a \<noteq> None
      then reject p (timeout_error a)
             (w\<lparr>responseCallbacks := (responseCallbacks w)(a := None)\<rparr>)
      else w)"

subsection \<open>The event loop's clock\<close>

text \<open>
  One millisecond passes: the clock advances, every timeout whose deadline has come runs
  its callback in the order the timers were made and is dropped from the queue, and every
  interval that is due sends \<open>/xremote\<close> and is due again 9000 ms later. The callbacks
  never look at the timer queue, so running the due ones first and dropping them
  afterwards is the same as dropping each as it runs.
\<close>

definition is_due :: "nat \<Rightarrow> timer \<Rightarrow> bool" where
  "is_due t tm = (fst tm \<le> t)"

definition run_timer :: "timer \<Rightarrow> world \<Rightarrow> world" where
  "run_timer tm w = timeout_callback (fst (snd tm)) (snd (snd tm)) w"

fun run_intervals :: "nat \<Rightarrow> nat list \<Rightarrow> world \<Rightarrow> world" where
  "run_intervals t [] w = w"
| "run_intervals t (d # ds) w =
     run_intervals t ds (if d \<le> t then sendCommand ''/xremote'' [] w else w)"

definition rearm :: "nat \<Rightarrow> nat \<Rightarrow> nat" where
  "rearm t d = (if d \<le> t then t + 9000 else d)"

definition tick :: "world \<Rightarrow> world" where
  "tick w =
     (let t = now w + 1;
          w1 = w\<lparr>now := t\<rparr>;
          w2 = fold run_timer (filter (is_due t) (timeouts w1)) w1;
          w3 = w2\<lparr>timeouts := filter (\<lambda>tm. \<not> is_due t tm) (timeouts w2)\<rparr>;
          w4 = run_intervals t (intervals w3) w3
      in w4\<lparr>intervals := map (rearm t) (intervals w4)\<rparr>)"

fun advance :: "nat \<Rightarrow> world \<Rightarrow> world" where
  "advance 0 w = w"
| "advance (Suc d) w = advance d (tick w)"

section \<open>Path builder and unit codec\<close>

text \<open>
  \<open>n.toString()\<close> and \<open>padStart\<close>, for an index \<open>n\<close> that is an integer of magnitude
  below \<open>10^21\<close>, which JavaScript prints in plain decimal. From \<open>10^21\<close> on JavaScript
  prints the exponent form (\<open>1e+21\<close>), and a number with a fraction prints its fraction:
  both are outside the model, and \<open>toString\<close> below says nothing about them.
\<close>

definition digit :: "nat \<Rightarrow> char" where
  "digit d = ''0123456789'' ! d"

fun show_nat :: "nat \<Rightarrow> string" where
  "show_nat n = (if n < 10 then [digit n] else show_nat (n div 10) @ [digit (n mod 10)])"

definition toString :: "int \<Rightarrow> string" where
  "toString i = (if i < 0 then ''-'' @ show_nat (nat (- i)) else show_nat (nat i))"

definition padStart :: "nat \<Rightarrow> char \<Rightarrow> string \<Rightarrow> string" where
  "padStart n c s = replicate (n - length s) c @ s"

definition getChannelPath :: "int \<Rightarrow> string" where
  "getChannelPath channel = ''/ch/'' @ padStart 2 (CHR ''0'') (toString channel)"

text \<open>
  The setters are \<open>async\<close> functions that call \<open>sendCommand\<close> and return; their promise
  is fulfilled with \<open>undefined\<close>. The getters await \<open>sendAndReceive\<close> and then convert
  the value: a getter \<open>g\<close> is the call it issues, \<open>g_return\<close> is what it computes from
  the value the call is resolved with, and \<open>g_result\<close> is the outcome of the promise the
  getter returns, given the outcome of the call.
\<close>

definition setFader :: "int \<Rightarrow> real \<Rightarrow> world \<Rightarrow> world \<times> outcome" where
  "setFader channel level w =
     (sendCommand (getChannelPath channel @ ''/mix/fader'') [Num level] w, Fulfilled Undefined)"

definition getFader :: "int \<Rightarrow> world \<Rightarrow> world \<times> nat" where
  "getFader channel w = sendAndReceive (getChannelPath channel @ ''/mix/fader'') [] w"

definition muteChannel :: "int \<Rightarrow> bool \<Rightarrow> world \<Rightarrow> world \<times> outcome" where
  "muteChannel channel mute w =
     (sendCommand (getChannelPath channel @ ''/mix/on'') [Num (if mute then 0 else 1)] w,
      Fulfilled Undefined)"

definition getMute :: "int \<Rightarrow> world \<Rightarrow> world \<times> nat" where
  "getMute channel w = sendAndReceive (getChannelPath channel @ ''/mix/on'') [] w"

definition getMute_return :: "jsval \<Rightarrow> bool" where
  "getMute_return v = (v = Num 0)"

text \<open>
  \<open>rounds_to u fl\<close>: the rounding \<open>fl\<close> has relative error at most \<open>u\<close>, as the rounding
  of doubles has with \<open>u = 2^-53\<close> as long as no operation overflows or underflows.
\<close>

definition rounds_to :: "real \<Rightarrow> (real \<Rightarrow> real) \<Rightarrow> bool" where
  "rounds_to u fl \<longleftrightarrow> 0 \<le> u \<and> (\<forall>y. \<bar>fl y - y\<bar> \<le> u * \<bar>y\<bar>)"

text \<open>
  A getter that computes with the reply, \<open>return value * k - c\<close> after the \<open>await\<close>:
  its promise is pending while the call is, is rejected with the call's error, and is
  fulfilled with the converted value when the reply is a number. \<open>None\<close>: the reply is
  not a number, and the conversion JavaScript then makes is outside the model.
\<close>

definition await_number :: "(real \<Rightarrow> real) \<Rightarrow> outcome \<Rightarrow> outcome option" where
  "await_number f r =
     (case r of
        Pending \<Rightarrow> Some Pending
      | Rejected e \<Rightarrow> Some (Rejected e)
      | Fulfilled (Num v) \<Rightarrow> Some (Fulfilled (Num (f v)))
      | Fulfilled _ \<Rightarrow> None)"

definition mixerPan :: "(real \<Rightarrow> real) \<Rightarrow> real \<Rightarrow> real" where
  "mixerPan fl pan = fl (fl (pan + 1) / 2)"

definition setPan :: "(real \<Rightarrow> real) \<Rightarrow> int \<Rightarrow> real \<Rightarrow> world \<Rightarrow> world \<times> outcome" where
  "setPan fl channel pan w =
     (sendCommand (getChannelPath channel @ ''/mix/pan'') [Num (mixerPan fl pan)] w,
      Fulfilled Undefined)"

definition getPan :: "int \<Rightarrow> world \<Rightarrow> world \<times> nat" where
  "getPan channel w = sendAndReceive (getChannelPath channel @ ''/mix/pan'') [] w"

definition getPan_return :: "(real \<Rightarrow> real) \<Rightarrow> real \<Rightarrow> real" where
  "getPan_return fl v = fl (fl (v * 2) - 1)"

definition getPan_result :: "(real \<Rightarrow> real) \<Rightarrow> outcome \<Rightarrow> outcome option" where
  "getPan_result fl r = await_number (getPan_return fl) r"

definition mixerGain :: "(real \<Rightarrow> real) \<Rightarrow> real \<Rightarrow> real" where
  "mixerGain fl gain = fl (fl (gain + 15) / 30)"

definition setEQ :: "(real \<Rightarrow> real) \<Rightarrow> int \<Rightarrow> int \<Rightarrow> real \<Rightarrow> world \<Rightarrow> world \<times> outcome" where
  "setEQ fl channel band gain w =
     (sendCommand (getChannelPath channel @ ''/eq/'' @ toString band @ ''/g'')
        [Num (mixerGain fl gain)] w,
      Fulfilled Undefined)"

definition getEQ :: "int \<Rightarrow> int \<Rightarrow> world \<Rightarrow> world \<times> nat" where
  "getEQ channel band w =
     sendAndReceive (getChannelPath channel @ ''/eq/'' @ toString band @ ''/g'') [] w"

definition getEQ_return :: "(real \<Rightarrow> real) \<Rightarrow> real \<Rightarrow> real" where
  "getEQ_return fl v = fl (fl (v * 30) - 15)"

definition getEQ_result :: "(real \<Rightarrow> real) \<Rightarrow> outcome \<Rightarrow> outcome option" where
  "getEQ_result fl r = await_number (getEQ_return fl) r"

definition setEQOn :: "int \<Rightarrow> bool \<Rightarrow> world \<Rightarrow> world \<times> outcome" where
  "setEQOn channel on w =
     (sendCommand (getChannelPath channel @ ''/eq/on'') [Num (if on then 1 else 0)] w,
      Fulfilled Undefined)"

definition mixerThreshold :: "(real \<Rightarrow> real) \<Rightarrow> real \<Rightarrow> real" where
  "mixerThreshold fl threshold = fl (fl (threshold + 80) / 80)"

definition setGate :: "(real \<Rightarrow> real) \<Rightarrow> int \<Rightarrow> real \<Rightarrow> world \<Rightarrow> world \<times> outcome" where
  "setGate fl channel threshold w =
     (sendCommand (getChannelPath channel @ ''/gate/thr'') [Num (mixerThreshold fl threshold)] w,
      Fulfilled Undefined)"

definition getGate :: "int \<Rightarrow> world \<Rightarrow> world \<times> nat" where
  "getGate channel w = sendAndReceive (getChannelPath channel @ ''/gate/thr'') [] w"

definition getGate_return :: "(real \<Rightarrow> real) \<Rightarrow> real \<Rightarrow> real" where
  "getGate_return fl v = fl (fl (v * 80) - 80)"

definition getGate_result :: "(real \<Rightarrow> real) \<Rightarrow> outcome \<Rightarrow> outcome option" where
  "getGate_result fl r = await_number (getGate_return fl) r"

definition setGateOn :: "int \<Rightarrow> bool \<Rightarrow> world \<Rightarrow> world \<times> outcome" where
  "setGateOn channel on w =
     (sendCommand (getChannelPath channel @ ''/gate/on'') [Num (if on then 1 else 0)] w,
      Fulfilled Undefined)"

section \<open>Histories of the client\<close>

text \<open>
  What can happen to a client: a call of \<open>connect\<close> (with the fate of \<open>osc.open\<close>)
  or of \<open>close\<close>, a setter (every setter is one \<open>sendCommand\<close>), a getter (every
  getter is one \<open>sendAndReceive\<close>), a datagram delivered to the \<open>"*"\<close> handler, which
  only an open socket does, or a millisecond passing.
\<close>

datatype event =
    Connect "error option"
  | Close
  | SendCommand string "jsval list"
  | SendAndReceive string "jsval list"
  | Message inbound
  | Tick

fun step :: "event \<Rightarrow> world \<Rightarrow> world" where
  "step (Connect thrown) w = fst (connect thrown w)"
| "step Close w = close w"
| "step (SendCommand a as) w = sendCommand a as w"
| "step (SendAndReceive a as) w = fst (sendAndReceive a as w)"
| "step (Message m) w = (if socket_open w then on_message m w else w)"
| "step Tick w = tick w"

definition run :: "event list \<Rightarrow> world \<Rightarrow> world" where
  "run evs w = fold step evs w"

definition ticks :: "event list \<Rightarrow> nat" where
  "ticks evs = length (filter (\<lambda>e. e = Tick) evs)"

text \<open>The two commands of \<open>connect\<close>, and the part of the sent log that holds them.\<close>

definition xcontrol :: message where
  "xcontrol = \<lparr>address = ''/xcontrol'', args = []\<rparr>"

definition xremote :: message where
  "xremote = \<lparr>address = ''/xremote'', args = []\<rparr>"

definition session_commands :: "world \<Rightarrow> message list" where
  "session_commands w =
     filter (\<lambda>m. address m = ''/xcontrol'' \<or> address m = ''/xremote'') (sent w)"

text \<open>
  \<open>traffic\<close>: what callers and the mixer do during a connection, the callers not sending
  the two session commands themselves. \<open>no_connect\<close>: anything but a call of
  \<open>connect\<close>. \<open>silent A\<close>: anything but a new call on address \<open>A\<close> and a datagram
  for \<open>A\<close> that carries an argument.
\<close>

fun traffic :: "event \<Rightarrow> bool" where
  "traffic (Connect thrown) = False"
| "traffic Close = False"
| "traffic (SendCommand a as) = (a \<noteq> ''/xcontrol'' \<and> a \<noteq> ''/xremote'')"
| "traffic (SendAndReceive a as) = (a \<noteq> ''/xcontrol'' \<and> a \<noteq> ''/xremote'')"
| "traffic (Message m) = True"
| "traffic Tick = True"

fun no_connect :: "event \<Rightarrow> bool" where
  "no_connect (Connect thrown) = False"
| "no_connect e = True"

fun silent :: "string \<Rightarrow> event \<Rightarrow> bool" where
  "silent A (SendAndReceive a as) = (a \<noteq> A)"
| "silent A (Message m) = (in_address m \<noteq> A \<or> in_args m = None \<or> in_args m = Some [])"
| "silent A e = True"

text \<open>
  The facts that hold in every state a client can reach: a registered callback belongs to
  a promise that exists and is still pending, no promise is registered under two
  addresses, and a timer's promise is registered, if at all, under the timer's address.
\<close>

definition well_formed :: "world \<Rightarrow> bool" where
  "well_formed w \<longleftrightarrow>
     (\<forall>a p. responseCallbacks w a = Some p \<longrightarrow>
        p < length (promises w) \<and> promises w ! p = Pending)
   \<and> (\<forall>a b p. responseCallbacks w a = Some p \<longrightarrow> responseCallbacks w b = Some p \<longrightarrow> a = b)
   \<and> (\<forall>dl a p. (dl, a, p) \<in> set (timeouts w) \<longrightarrow> p < length (promises w))
   \<and> (\<forall>dl a p b. (dl, a, p) \<in> set (timeouts w) \<longrightarrow> responseCallbacks w b = Some p \<longrightarrow>
        b = a)"

text \<open>A connected client with one renewal timer, \<open>e\<close> ms after the timer was armed.\<close>

definition keeper :: "nat \<Rightarrow> world \<Rightarrow> bool" where
  "keeper e w \<longleftrightarrow> isConnected w \<and> e < 9000 \<and> intervals w = [now w + 9000 - e]"

text \<open>
  \<open>awaiting dl A p\<close>: the call with promise \<open>p\<close> is registered under \<open>A\<close>, its timer
  with deadline \<open>dl\<close> is pending and is the only timer for \<open>A\<close>.
  \<open>timed_out A p\<close>: the call was rejected with the timeout error and \<open>A\<close> has no entry.
\<close>

definition awaiting :: "nat \<Rightarrow> string \<Rightarrow> nat \<Rightarrow> world \<Rightarrow> bool" where
  "awaiting dl A p w \<longleftrightarrow>
     well_formed w \<and> now w < dl \<and> responseCallbacks w A = Some p \<and> (dl, A, p) \<in> set (timeouts w)
     \<and> (\<forall>dl' q. (dl', A, q) \<in> set (timeouts w) \<longrightarrow> dl' = dl \<and> q = p)"

definition timed_out :: "string \<Rightarrow> nat \<Rightarrow> world \<Rightarrow> bool" where
  "timed_out A p w \<longleftrightarrow>
     responseCallbacks w A = None \<and> p < length (promises w)
     \<and> promises w ! p = Rejected (timeout_error A)"

section \<open>Properties of the operations\<close>

subsection \<open>What each operation changes\<close>

lemma settle_fields [simp]:
  "responseCallbacks (settle p r w) = responseCallbacks w"
  "isConnected (settle p r w) = isConnected w"
  "socket_open (settle p r w) = socket_open w"
  "sent (settle p r w) = sent w"
  "console (settle p r w) = console w"
  "timeouts (settle p r w) = timeouts w"
  "intervals (settle p r w) = intervals w"
  "now (settle p r w) = now w"
  "length (promises (settle p r w)) = length (promises w)"
  by (simp_all add: settle_def)

lemma settle_promises:
  "promises (settle p r w) =
     (if p < length (promises w) \<and> promises w ! p = Pending then (promises w)[p := r]
      else promises w)"
  by (simp add: settle_def)

lemma settle_update_rc [simp]:
  "settle p r (w\<lparr>responseCallbacks := m\<rparr>) = (settle p r w)\<lparr>responseCallbacks := m\<rparr>"
  by (simp add: settle_def)

lemma sendCommand_fields [simp]:
  "responseCallbacks (sendCommand a as w) = responseCallbacks w"
  "isConnected (sendCommand a as w) = isConnected w"
  "socket_open (sendCommand a as w) = socket_open w"
  "promises (sendCommand a as w) = promises w"
  "timeouts (sendCommand a as w) = timeouts w"
  "intervals (sendCommand a as w) = intervals w"
  "now (sendCommand a as w) = now w"
  by (simp_all add: sendCommand_def)

lemma sendCommand_sent:
  "sent (sendCommand a as w) =
     (if isConnected w then sent w @ [\<lparr>address = a, args = as\<rparr>] else sent w)"
  by (simp add: sendCommand_def)

lemma timeout_callback_fields [simp]:
  "responseCallbacks (timeout_callback a p w) = (responseCallbacks w)(a := None)"
  "isConnected (timeout_callback a p w) = isConnected w"
  "socket_open (timeout_callback a p w) = socket_open w"
  "sent (timeout_callback a p w) = sent w"
  "console (timeout_callback a p w) = console w"
  "timeouts (timeout_callback a p w) = timeouts w"
  "intervals (timeout_callback a p w) = intervals w"
  "now (timeout_callback a p w) = now w"
  "length (promises (timeout_callback a p w)) = length (promises w)"
  by (auto simp: timeout_callback_def reject_def)

lemma timeout_callback_promises:
  "promises (timeout_callback a p w) =
     (if responseCallbacks w a \<noteq> None \<and> p < length (promises w) \<and> promises w ! p = Pending
      then (promises w)[p := Rejected (timeout_error a)]
      else promises w)"
  by (auto simp: timeout_callback_def reject_def settle_promises)

lemma on_message_fields [simp]:
  "isConnected (on_message m w) = isConnected w"
  "socket_open (on_message m w) = socket_open w"
  "sent (on_message m w) = sent w"
  "console (on_message m w) = console w"
  "timeouts (on_message m w) = timeouts w"
  "intervals (on_message m w) = intervals w"
  "now (on_message m w) = now w"
  "length (promises (on_message m w)) = length (promises w)"
  by (simp_all add: on_message_def resolve_def split: option.splits list.splits)

lemma sendAndReceive_eq:
  "sendAndReceive a as w =
     (set_timeout a (length (promises w))
        (sendCommand a as
           (w\<lparr>promises := promises w @ [Pending],
              responseCallbacks := (responseCallbacks w)(a \<mapsto> length (promises w))\<rparr>)),
      length (promises w))"
  by (simp add: sendAndReceive_def sendAndReceive_steps_def register_callback_def Let_def)

lemma sendAndReceive_fields [simp]:
  "snd (sendAndReceive a as w) = length (promises w)"
  "responseCallbacks (fst (sendAndReceive a as w)) = (responseCallbacks w)(a \<mapsto> length (promises w))"
  "promises (fst (sendAndReceive a as w)) = promises w @ [Pending]"
  "timeouts (fst (sendAndReceive a as w)) = timeouts w @ [(now w + 1000, a, length (promises w))]"
  "intervals (fst (sendAndReceive a as w)) = intervals w"
  "isConnected (fst (sendAndReceive a as w)) = isConnected w"
  "socket_open (fst (sendAndReceive a as w)) = socket_open w"
  "now (fst (sendAndReceive a as w)) = now w"
  by (simp_all add: sendAndReceive_eq set_timeout_def)

lemma sendAndReceive_sent:
  "sent (fst (sendAndReceive a as w)) =
     (if isConnected w then sent w @ [\<lparr>address = a, args = as\<rparr>] else sent w)"
  by (simp add: sendAndReceive_eq set_timeout_def sendCommand_sent)

lemma connect_fields [simp]:
  "responseCallbacks (fst (connect thrown w)) = responseCallbacks w"
  "promises (fst (connect thrown w)) = promises w"
  "timeouts (fst (connect thrown w)) = timeouts w"
  "now (fst (connect thrown w)) = now w"
  "isConnected (fst (connect thrown w)) = (thrown = None \<or> isConnected w)"
  "intervals (fst (connect thrown w)) = (if thrown = None then intervals w @ [now w + 9000] else intervals w)"
  by (simp_all add: connect_def Let_def split: option.splits)

lemma close_fields [simp]:
  "responseCallbacks (close w) = responseCallbacks w"
  "promises (close w) = promises w"
  "timeouts (close w) = timeouts w"
  "intervals (close w) = intervals w"
  "sent (close w) = sent w"
  "console (close w) = console w"
  "now (close w) = now w"
  "isConnected (close w) = False"
  "socket_open (close w) = False"
  by (simp_all add: close_def)

lemma fold_run_timer_fields [simp]:
  "isConnected (fold run_timer tms w) = isConnected w"
  "socket_open (fold run_timer tms w) = socket_open w"
  "sent (fold run_timer tms w) = sent w"
  "console (fold run_timer tms w) = console w"
  "timeouts (fold run_timer tms w) = timeouts w"
  "intervals (fold run_timer tms w) = intervals w"
  "now (fold run_timer tms w) = now w"
  "length (promises (fold run_timer tms w)) = length (promises w)"
  by (induction tms arbitrary: w; simp add: run_timer_def)+

lemma fold_run_timer_rc:
  "responseCallbacks (fold run_timer tms w) a =
     (if a \<in> (\<lambda>tm. fst (snd tm)) ` set tms then None else responseCallbacks w a)"
  by (induction tms arbitrary: w) (auto simp: run_timer_def)

lemma run_intervals_fields [simp]:
  "responseCallbacks (run_intervals t ds w) = responseCallbacks w"
  "isConnected (run_intervals t ds w) = isConnected w"
  "socket_open (run_intervals t ds w) = socket_open w"
  "promises (run_intervals t ds w) = promises w"
  "timeouts (run_intervals t ds w) = timeouts w"
  "intervals (run_intervals t ds w) = intervals w"
  "now (run_intervals t ds w) = now w"
  by (induction ds arbitrary: w; simp)+

lemma run_intervals_sent:
  "sent (run_intervals t ds w) =
     sent w @ (if isConnected w
               then replicate (length (filter (\<lambda>d. d \<le> t) ds)) \<lparr>address = ''/xremote'', args = []\<rparr>
               else [])"
  by (induction ds arbitrary: w) (auto simp: sendCommand_sent replicate_append_same)

lemma tick_fields [simp]:
  "now (tick w) = now w + 1"
  "isConnected (tick w) = isConnected w"
  "socket_open (tick w) = socket_open w"
  "timeouts (tick w) = filter (\<lambda>tm. \<not> is_due (now w + 1) tm) (timeouts w)"
  "intervals (tick w) = map (rearm (now w + 1)) (intervals w)"
  "length (promises (tick w)) = length (promises w)"
  by (simp_all add: tick_def Let_def)

lemma tick_sent:
  "sent (tick w) =
     sent w @ (if isConnected w
               then replicate (length (filter (\<lambda>d. d \<le> now w + 1) (intervals w)))
                      \<lparr>address = ''/xremote'', args = []\<rparr>
               else [])"
  by (simp add: tick_def Let_def run_intervals_sent)

lemma tick_rc:
  "responseCallbacks (tick w) a =
     (if a \<in> (\<lambda>tm. fst (snd tm)) ` set (filter (is_due (now w + 1)) (timeouts w)) then None
      else responseCallbacks w a)"
  by (simp add: tick_def Let_def fold_run_timer_rc)

lemma tick_promises:
  "promises (tick w) = promises (fold run_timer (filter (is_due (now w + 1)) (timeouts w)) w)"
proof -
  have "\<And>v. promises (fold run_timer tms (v\<lparr>now := t\<rparr>)) = promises (fold run_timer tms v)" for tms t
  proof (induction tms)
    case Nil show ?case by simp
  next
    case (Cons tm tms)
    have "run_timer tm (v\<lparr>now := t\<rparr>) = (run_timer tm v)\<lparr>now := t\<rparr>" for v
      by (simp add: run_timer_def timeout_callback_def reject_def settle_def)
    then show ?case using Cons by simp
  qed
  then show ?thesis by (simp add: tick_def Let_def)
qed

subsection \<open>The invariant of reachable states\<close>

text \<open>
  \<open>well_formed\<close> holds of a new client and is kept by every method, by the message handler and by
  the passing of time, so it holds after every history.
\<close>

lemma well_formedI:
  assumes "\<And>a p. responseCallbacks w a = Some p \<Longrightarrow> p < length (promises w)"
    and "\<And>a p. responseCallbacks w a = Some p \<Longrightarrow> promises w ! p = Pending"
    and "\<And>a b p. responseCallbacks w a = Some p \<Longrightarrow> responseCallbacks w b = Some p \<Longrightarrow> a = b"
    and "\<And>dl a p. (dl, a, p) \<in> set (timeouts w) \<Longrightarrow> p < length (promises w)"
    and "\<And>dl a p b. (dl, a, p) \<in> set (timeouts w) \<Longrightarrow> responseCallbacks w b = Some p \<Longrightarrow> b = a"
  shows "well_formed w"
  unfolding well_formed_def using assms by blast

lemma well_formed_bound: "well_formed w \<Longrightarrow> responseCallbacks w a = Some p \<Longrightarrow> p < length (promises w)"
  by (simp add: well_formed_def)

lemma well_formed_pending: "well_formed w \<Longrightarrow> responseCallbacks w a = Some p \<Longrightarrow> promises w ! p = Pending"
  by (simp add: well_formed_def)

lemma well_formed_inj:
  "well_formed w \<Longrightarrow> responseCallbacks w a = Some p \<Longrightarrow> responseCallbacks w b = Some p \<Longrightarrow> a = b"
  unfolding well_formed_def by blast

lemma well_formed_timer_bound: "well_formed w \<Longrightarrow> (dl, a, p) \<in> set (timeouts w) \<Longrightarrow> p < length (promises w)"
  unfolding well_formed_def by blast

lemma well_formed_timer_addr:
  "well_formed w \<Longrightarrow> (dl, a, p) \<in> set (timeouts w) \<Longrightarrow> responseCallbacks w b = Some p \<Longrightarrow> b = a"
  unfolding well_formed_def by blast

lemma well_formed_cong:
  "responseCallbacks w' = responseCallbacks w \<Longrightarrow> promises w' = promises w \<Longrightarrow>
   timeouts w' = timeouts w \<Longrightarrow> well_formed w' = well_formed w"
  by (simp add: well_formed_def)

lemma well_formed_new: "well_formed (new_OSCClient h p)"
  by (simp add: well_formed_def new_OSCClient_def)

lemma well_formed_sendCommand: "well_formed w \<Longrightarrow> well_formed (sendCommand a as w)"
  by (simp add: well_formed_cong [of "sendCommand a as w" w])

lemma well_formed_connect: "well_formed w \<Longrightarrow> well_formed (fst (connect thrown w))"
  by (simp add: well_formed_cong [of "fst (connect thrown w)" w])

lemma well_formed_close: "well_formed w \<Longrightarrow> well_formed (close w)"
  by (simp add: well_formed_cong [of "close w" w])

lemma well_formed_sendAndReceive:
  assumes w: "well_formed w"
  shows "well_formed (fst (sendAndReceive a as w))"
proof (rule well_formedI)
  fix b p assume "responseCallbacks (fst (sendAndReceive a as w)) b = Some p"
  then have "p = length (promises w) \<or> responseCallbacks w b = Some p"
    by (auto split: if_splits)
  then show "p < length (promises (fst (sendAndReceive a as w)))"
    using well_formed_bound [OF w, of b p] by auto
next
  fix b p assume "responseCallbacks (fst (sendAndReceive a as w)) b = Some p"
  then have "p = length (promises w) \<or> responseCallbacks w b = Some p"
    by (auto split: if_splits)
  then show "promises (fst (sendAndReceive a as w)) ! p = Pending"
    using well_formed_bound [OF w, of b p] well_formed_pending [OF w, of b p] by (auto simp: nth_append)
next
  fix b c p
  assume "responseCallbacks (fst (sendAndReceive a as w)) b = Some p"
    and "responseCallbacks (fst (sendAndReceive a as w)) c = Some p"
  then show "b = c"
    using well_formed_bound [OF w, of b p] well_formed_bound [OF w, of c p] well_formed_inj [OF w, of b p c]
    by (auto split: if_splits)
next
  fix dl b p assume "(dl, b, p) \<in> set (timeouts (fst (sendAndReceive a as w)))"
  then show "p < length (promises (fst (sendAndReceive a as w)))"
    using well_formed_timer_bound [OF w, of dl b p] by auto
next
  fix dl b p c
  assume "(dl, b, p) \<in> set (timeouts (fst (sendAndReceive a as w)))"
    and "responseCallbacks (fst (sendAndReceive a as w)) c = Some p"
  then show "c = b"
    using well_formed_timer_bound [OF w, of dl b p] well_formed_bound [OF w, of c p] well_formed_timer_addr [OF w, of dl b p c]
    by (auto split: if_splits)
qed

lemma on_message_rc:
  "responseCallbacks (on_message m w) =
     (if responseCallbacks w (in_address m) \<noteq> None \<and> (\<exists>v vs. in_args m = Some (v # vs))
      then (responseCallbacks w)(in_address m := None) else responseCallbacks w)"
  by (auto simp: on_message_def resolve_def split: option.splits list.splits)

lemma on_message_promises:
  "promises (on_message m w) =
     (case responseCallbacks w (in_address m) of
        None \<Rightarrow> promises w
      | Some p \<Rightarrow> (case in_args m of
                     Some (v # vs) \<Rightarrow> promises (settle p (Fulfilled v) w)
                   | _ \<Rightarrow> promises w))"
  by (auto simp: on_message_def resolve_def split: option.splits list.splits)

text \<open>Removing an entry and settling the promise it names keeps the state well formed.\<close>

lemma well_formed_remove_settle:
  assumes w: "well_formed w"
    and own: "\<And>b. responseCallbacks w b = Some p \<Longrightarrow> b = a"
  shows "well_formed ((settle p r w)\<lparr>responseCallbacks := (responseCallbacks w)(a := None)\<rparr>)"
proof (rule well_formedI)
  fix b q
  assume "responseCallbacks ((settle p r w)\<lparr>responseCallbacks := (responseCallbacks w)(a := None)\<rparr>) b = Some q"
  then have b: "b \<noteq> a" "responseCallbacks w b = Some q" by (auto split: if_splits)
  then show "q < length (promises ((settle p r w)\<lparr>responseCallbacks := (responseCallbacks w)(a := None)\<rparr>))"
    using well_formed_bound [OF w, of b q] by simp
  from b own have "q \<noteq> p" by auto
  then show "promises ((settle p r w)\<lparr>responseCallbacks := (responseCallbacks w)(a := None)\<rparr>) ! q = Pending"
    using well_formed_pending [OF w, of b q] b by (simp add: settle_promises)
next
  fix b c q
  assume "responseCallbacks ((settle p r w)\<lparr>responseCallbacks := (responseCallbacks w)(a := None)\<rparr>) b = Some q"
    and "responseCallbacks ((settle p r w)\<lparr>responseCallbacks := (responseCallbacks w)(a := None)\<rparr>) c = Some q"
  then show "b = c" using well_formed_inj [OF w, of b q c] by (auto split: if_splits)
next
  fix dl b q
  assume "(dl, b, q) \<in> set (timeouts ((settle p r w)\<lparr>responseCallbacks := (responseCallbacks w)(a := None)\<rparr>))"
  then show "q < length (promises ((settle p r w)\<lparr>responseCallbacks := (responseCallbacks w)(a := None)\<rparr>))"
    using well_formed_timer_bound [OF w, of dl b q] by simp
next
  fix dl b q c
  assume "(dl, b, q) \<in> set (timeouts ((settle p r w)\<lparr>responseCallbacks := (responseCallbacks w)(a := None)\<rparr>))"
    and "responseCallbacks ((settle p r w)\<lparr>responseCallbacks := (responseCallbacks w)(a := None)\<rparr>) c = Some q"
  then show "c = b" using well_formed_timer_addr [OF w, of dl b q c] by (auto split: if_splits)
qed

lemma well_formed_on_message:
  assumes w: "well_formed w"
  shows "well_formed (on_message m w)"
proof (cases "responseCallbacks w (in_address m)")
  case None
  then show ?thesis using w by (simp add: on_message_def)
next
  case (Some p)
  show ?thesis
  proof (cases "in_args m")
    case None
    then show ?thesis using w Some by (simp add: on_message_def)
  next
    case args: (Some vs)
    show ?thesis
    proof (cases vs)
      case Nil
      then show ?thesis using w Some args by (simp add: on_message_def)
    next
      case (Cons v vs')
      have "\<And>b. responseCallbacks w b = Some p \<Longrightarrow> b = in_address m"
        using well_formed_inj [OF w _ Some] by blast
      from well_formed_remove_settle [OF w this, where r = "Fulfilled v"]
      show ?thesis using Some args Cons by (simp add: on_message_def resolve_def)
    qed
  qed
qed

lemma well_formed_timeout_callback:
  assumes w: "well_formed w" and tm: "(dl, a, p) \<in> set (timeouts w)"
  shows "well_formed (timeout_callback a p w)"
proof (cases "responseCallbacks w a")
  case None
  then show ?thesis using w by (simp add: timeout_callback_def)
next
  case (Some q)
  have "\<And>b. responseCallbacks w b = Some p \<Longrightarrow> b = a"
    using well_formed_timer_addr [OF w tm] by blast
  from well_formed_remove_settle [OF w this, where r = "Rejected (timeout_error a)"]
  show ?thesis using Some by (simp add: timeout_callback_def reject_def)
qed

lemma well_formed_fold_run_timer:
  "well_formed w \<Longrightarrow> set tms \<subseteq> set (timeouts w) \<Longrightarrow> well_formed (fold run_timer tms w)"
proof (induction tms arbitrary: w)
  case Nil
  then show ?case by simp
next
  case (Cons tm tms)
  obtain dl a p where tm: "tm = (dl, a, p)" by (cases tm) auto
  with Cons.prems have "well_formed (run_timer tm w)"
    by (simp add: run_timer_def well_formed_timeout_callback [of w dl a p])
  moreover have "set tms \<subseteq> set (timeouts (run_timer tm w))"
    using Cons.prems by (simp add: run_timer_def)
  ultimately show ?case using Cons.IH by simp
qed

lemma well_formed_drop_timers:
  "well_formed w \<Longrightarrow> well_formed (w\<lparr>timeouts := filter P (timeouts w)\<rparr>)"
  by (auto simp: well_formed_def)

lemma well_formed_tick: "well_formed w \<Longrightarrow> well_formed (tick w)"
proof -
  assume w: "well_formed w"
  let ?t = "now w + 1"
  let ?w2 = "fold run_timer (filter (is_due ?t) (timeouts w)) w"
  have "well_formed ?w2" using w by (rule well_formed_fold_run_timer) auto
  then have "well_formed (?w2\<lparr>timeouts := filter (\<lambda>tm. \<not> is_due ?t tm) (timeouts ?w2)\<rparr>)"
    by (rule well_formed_drop_timers)
  moreover have "well_formed (tick w) = well_formed (?w2\<lparr>timeouts := filter (\<lambda>tm. \<not> is_due ?t tm) (timeouts ?w2)\<rparr>)"
    by (rule well_formed_cong) (simp_all add: tick_promises fun_eq_iff tick_rc fold_run_timer_rc)
  ultimately show ?thesis by simp
qed

lemma well_formed_step: "well_formed w \<Longrightarrow> well_formed (step e w)"
  by (cases e) (simp_all add: well_formed_connect well_formed_close well_formed_sendCommand well_formed_sendAndReceive
      well_formed_on_message well_formed_tick)

lemma well_formed_run: "well_formed w \<Longrightarrow> well_formed (run evs w)"
  unfolding run_def by (induction evs arbitrary: w) (simp_all add: well_formed_step)

lemma well_formed_reachable: "well_formed (run evs (new_OSCClient h p))"
  by (simp add: well_formed_run well_formed_new)

subsection \<open>Histories\<close>

lemma run_Nil [simp]: "run [] w = w"
  by (simp add: run_def)

lemma run_Cons [simp]: "run (e # evs) w = run evs (step e w)"
  by (simp add: run_def)

lemma run_append [simp]: "run (xs @ ys) w = run ys (run xs w)"
  by (simp add: run_def)

lemma ticks_simps [simp]:
  "ticks [] = 0"
  "ticks (Tick # evs) = Suc (ticks evs)"
  "e \<noteq> Tick \<Longrightarrow> ticks (e # evs) = ticks evs"
  "ticks (xs @ ys) = ticks xs + ticks ys"
  by (simp_all add: ticks_def)

subsection \<open>The session keeper\<close>

text \<open>
  A client that is not connected sends nothing until it is connected again. A connected
  client with one renewal timer sends \<open>/xremote\<close> each time the timer's 9000 ms are over.
\<close>

lemma step_not_connected_sent:
  "\<not> isConnected w \<Longrightarrow> no_connect e \<Longrightarrow> sent (step e w) = sent w \<and> \<not> isConnected (step e w)"
  by (cases e) (simp_all add: sendCommand_sent sendAndReceive_sent tick_sent)

lemma run_not_connected_sent:
  "\<not> isConnected w \<Longrightarrow> list_all no_connect evs \<Longrightarrow> sent (run evs w) = sent w"
proof (induction evs arbitrary: w)
  case Nil
  then show ?case by simp
next
  case (Cons e evs)
  then show ?case using step_not_connected_sent [of w e] by simp
qed

lemma keeper_traffic_step:
  assumes "keeper e w" "traffic ev" "ev \<noteq> Tick"
  shows "keeper e (step ev w) \<and> session_commands (step ev w) = session_commands w"
  using assms
  by (cases ev) (simp_all add: keeper_def session_commands_def sendCommand_sent sendAndReceive_sent)

lemma keeper_tick:
  assumes "keeper e w"
  shows "keeper (if e = 8999 then 0 else Suc e) (tick w)
       \<and> session_commands (tick w) = session_commands w @ (if e = 8999 then [xremote] else [])"
  using assms
  by (auto simp: keeper_def session_commands_def tick_sent rearm_def xremote_def)

lemma keeper_run:
  "keeper e w \<Longrightarrow> list_all traffic evs \<Longrightarrow>
   session_commands (run evs w) = session_commands w @ replicate ((ticks evs + e) div 9000) xremote
   \<and> isConnected (run evs w)"
proof (induction evs arbitrary: e w)
  case Nil
  then show ?case by (simp add: keeper_def)
next
  case (Cons ev evs)
  show ?case
  proof (cases "ev = Tick")
    case True
    let ?e' = "if e = 8999 then 0 else Suc e"
    from keeper_tick [OF Cons.prems(1)]
    have k: "keeper ?e' (tick w)"
      and s: "session_commands (tick w) = session_commands w @ (if e = 8999 then [xremote] else [])"
      by simp_all
    from Cons.IH [OF k] Cons.prems(2)
    have ih: "session_commands (run evs (tick w)) =
        session_commands (tick w) @ replicate ((ticks evs + ?e') div 9000) xremote"
      and c: "isConnected (run evs (tick w))" by simp_all
    have "(if e = 8999 then [xremote] else []) @ replicate ((ticks evs + ?e') div 9000) xremote
        = replicate ((Suc (ticks evs) + e) div 9000) xremote"
    proof (cases "e = 8999")
      case True
      have "(Suc (ticks evs) + 8999) div 9000 = Suc (ticks evs div 9000)" by simp
      then show ?thesis using True by simp
    next
      case False
      then show ?thesis by simp
    qed
    then show ?thesis using True ih s c by simp
  next
    case False
    from Cons.prems have "traffic ev" by simp
    from keeper_traffic_step [OF Cons.prems(1) this False] Cons.IH [of e "step ev w"] Cons.prems(2) False
    show ?thesis by simp
  qed
qed

lemma keeper_connect: "keeper 0 (fst (connect None (new_OSCClient h p)))"
  by (simp add: keeper_def new_OSCClient_def connect_def Let_def)

lemma session_commands_connect:
  "session_commands (fst (connect None (new_OSCClient h p))) = [xcontrol]"
  by (simp add: session_commands_def new_OSCClient_def connect_def Let_def sendCommand_def xcontrol_def)

subsection \<open>A call and its timer\<close>

text \<open>
  A call that is the only one with a timer for its address stays registered until its
  deadline, whatever else happens short of a new call or a reply with an argument on its
  address; at the deadline its timer rejects it, and it stays rejected.
\<close>

lemma settle_settled:
  "promises w ! p \<noteq> Pending \<Longrightarrow> promises (settle q r w) ! p = promises w ! p"
  by (cases "p = q") (simp_all add: settle_promises)

lemma run_timer_settled:
  "promises w ! p \<noteq> Pending \<Longrightarrow> promises (run_timer tm w) ! p = promises w ! p"
  by (simp add: run_timer_def timeout_callback_def reject_def settle_settled)

lemma fold_run_timer_settled:
  "promises w ! p \<noteq> Pending \<Longrightarrow> promises (fold run_timer tms w) ! p = promises w ! p"
proof (induction tms arbitrary: w)
  case Nil
  then show ?case by simp
next
  case (Cons tm tms)
  from run_timer_settled [OF Cons.prems, of tm]
  have "promises (run_timer tm w) ! p = promises w ! p" .
  with Cons.IH [of "run_timer tm w"] Cons.prems show ?case by simp
qed

lemma fold_run_timer_fires:
  assumes "responseCallbacks w A \<noteq> None" "p < length (promises w)" "promises w ! p = Pending"
    and "(dl, A, p) \<in> set tms"
    and "\<And>dl' a q. (dl', a, q) \<in> set tms \<Longrightarrow> (a = A) = (q = p)"
  shows "promises (fold run_timer tms w) ! p = Rejected (timeout_error A)"
  using assms
proof (induction tms arbitrary: w)
  case Nil
  then show ?case by simp
next
  case (Cons tm tms)
  obtain dl' a q where tm: "tm = (dl', a, q)" by (cases tm) auto
  have rel: "(a = A) = (q = p)" using Cons.prems(5) [of dl' a q] tm by simp
  show ?case
  proof (cases "a = A")
    case True
    with rel have q: "q = p" by simp
    have "promises (run_timer tm w) ! p = Rejected (timeout_error A)"
      using Cons.prems(1-3) tm True q by (simp add: run_timer_def timeout_callback_promises)
    then show ?thesis
      using fold_run_timer_settled [of "run_timer tm w" p tms] by simp
  next
    case False
    with rel have q: "q \<noteq> p" by simp
    have 1: "responseCallbacks (run_timer tm w) A \<noteq> None"
      using Cons.prems(1) False tm by (simp add: run_timer_def)
    have 2: "p < length (promises (run_timer tm w))"
      using Cons.prems(2) by (simp add: run_timer_def)
    have 3: "promises (run_timer tm w) ! p = Pending"
      using Cons.prems(2,3) q tm by (simp add: run_timer_def timeout_callback_promises)
    have 4: "(dl, A, p) \<in> set tms" using Cons.prems(4) False tm by auto
    have 5: "(a' = A) = (q' = p)" if "(dl'', a', q') \<in> set tms" for dl'' a' q'
    proof -
      from that have "(dl'', a', q') \<in> set (tm # tms)" by simp
      then show ?thesis by (rule Cons.prems(5))
    qed
    from Cons.IH [OF 1 2 3 4 5] show ?thesis by simp
  qed
qed

lemma awaiting_issue:
  assumes w: "well_formed w" and free: "list_all (\<lambda>tm. fst (snd tm) \<noteq> A) (timeouts w)"
  shows "awaiting (now w + 1000) A (length (promises w)) (fst (sendAndReceive A as w))"
  using well_formed_sendAndReceive [OF w, of A as] free
  by (auto simp: awaiting_def list_all_iff)

lemma awaiting_step:
  assumes a: "awaiting dl A p w" and s: "silent A e" and nt: "e \<noteq> Tick"
  shows "awaiting dl A p (step e w)"
proof (cases e)
  case (Connect thrown)
  then show ?thesis using a well_formed_connect [of w thrown] by (simp add: awaiting_def)
next
  case Close
  then show ?thesis using a well_formed_close [of w] by (simp add: awaiting_def)
next
  case (SendCommand b bs)
  then show ?thesis using a well_formed_sendCommand [of w b bs] by (simp add: awaiting_def)
next
  case (SendAndReceive b bs)
  then show ?thesis using a s well_formed_sendAndReceive [of w b bs] by (auto simp: awaiting_def)
next
  case (Message m)
  show ?thesis
  proof (cases "in_address m = A")
    case True
    with s Message have "on_message m w = w"
      by (auto simp: on_message_def split: option.splits)
    then show ?thesis using a Message by simp
  next
    case False
    then show ?thesis using a Message well_formed_on_message [of w m]
      by (simp add: awaiting_def on_message_rc)
  qed
next
  case Tick
  with nt show ?thesis by simp
qed

lemma awaiting_tick_early:
  assumes a: "awaiting dl A p w" and e: "now w + 1 < dl"
  shows "awaiting dl A p (tick w)"
proof -
  from a have w: "well_formed w" and rc: "responseCallbacks w A = Some p"
    and tm: "(dl, A, p) \<in> set (timeouts w)"
    and only: "\<And>dl' q. (dl', A, q) \<in> set (timeouts w) \<Longrightarrow> dl' = dl \<and> q = p"
    unfolding awaiting_def by blast+
  have "A \<notin> (\<lambda>tm. fst (snd tm)) ` set (filter (is_due (now w + 1)) (timeouts w))"
  proof
    assume "A \<in> (\<lambda>tm. fst (snd tm)) ` set (filter (is_due (now w + 1)) (timeouts w))"
    then obtain tm' where t': "tm' \<in> set (timeouts w)" "is_due (now w + 1) tm'" "fst (snd tm') = A"
      by auto
    obtain dl' q where "tm' = (dl', A, q)" using t'(3) by (cases tm') auto
    with t' only [of dl' q] e show False by (simp add: is_due_def)
  qed
  then have 1: "responseCallbacks (tick w) A = Some p" using rc by (simp only: tick_rc if_False)
  have "\<not> is_due (now w + 1) (dl, A, p)" using e by (simp add: is_due_def)
  then have 2: "(dl, A, p) \<in> set (timeouts (tick w))" using tm by simp
  have 3: "\<forall>dl' q. (dl', A, q) \<in> set (timeouts (tick w)) \<longrightarrow> dl' = dl \<and> q = p"
  proof (intro allI impI)
    fix dl' q assume "(dl', A, q) \<in> set (timeouts (tick w))"
    then have "(dl', A, q) \<in> set (timeouts w)" by simp
    then show "dl' = dl \<and> q = p" by (rule only)
  qed
  have 4: "now (tick w) < dl" using e by simp
  show ?thesis unfolding awaiting_def
    using well_formed_tick [OF w] 1 2 3 4 by blast
qed

lemma awaiting_tick_due:
  assumes a: "awaiting dl A p w" and e: "now w + 1 = dl"
  shows "timed_out A p (tick w)"
proof -
  from a have w: "well_formed w" and rc: "responseCallbacks w A = Some p"
    and tm: "(dl, A, p) \<in> set (timeouts w)"
    and only: "\<And>dl' q. (dl', A, q) \<in> set (timeouts w) \<Longrightarrow> dl' = dl \<and> q = p"
    by (auto simp: awaiting_def)
  let ?due = "filter (is_due (now w + 1)) (timeouts w)"
  have due: "(dl, A, p) \<in> set ?due" using tm e by (simp add: is_due_def)
  have rel: "\<And>dl' a q. (dl', a, q) \<in> set ?due \<Longrightarrow> (a = A) = (q = p)"
    using only well_formed_timer_addr [OF w _ rc] by auto
  have "promises (fold run_timer ?due w) ! p = Rejected (timeout_error A)"
    using fold_run_timer_fires [of w A p dl ?due] rc well_formed_bound [OF w rc] well_formed_pending [OF w rc] due rel
    by simp
  moreover have "A \<in> (\<lambda>tm. fst (snd tm)) ` set ?due"
    using due by (rule rev_image_eqI) simp
  then have "responseCallbacks (tick w) A = None"
    by (simp only: tick_rc if_True)
  ultimately show ?thesis using well_formed_bound [OF w rc] by (simp add: timed_out_def tick_promises)
qed

lemma timed_out_step:
  assumes t: "timed_out A p w" and s: "silent A e"
  shows "timed_out A p (step e w)"
proof (cases e)
  case (SendAndReceive b bs)
  then show ?thesis using t s by (simp add: timed_out_def nth_append)
next
  case (Message m)
  then show ?thesis using t
    by (auto simp: timed_out_def on_message_rc on_message_promises settle_settled
        split: option.splits list.splits)
next
  case Tick
  then show ?thesis using t
    by (simp add: timed_out_def tick_rc tick_promises fold_run_timer_settled)
qed (use t in \<open>simp_all add: timed_out_def\<close>)

lemma timed_out_run:
  "timed_out A p w \<Longrightarrow> list_all (silent A) evs \<Longrightarrow> timed_out A p (run evs w)"
  by (induction evs arbitrary: w) (simp_all add: timed_out_step)

lemma awaiting_run:
  "awaiting dl A p w \<Longrightarrow> list_all (silent A) evs \<Longrightarrow>
   (if now w + ticks evs < dl then awaiting dl A p (run evs w) else timed_out A p (run evs w))"
proof (induction evs arbitrary: w)
  case Nil
  then show ?case by (simp add: awaiting_def)
next
  case (Cons e evs)
  from Cons.prems have se: "silent A e" and sevs: "list_all (silent A) evs" by simp_all
  from Cons.prems(1) have lt: "now w < dl" by (simp add: awaiting_def)
  show ?case
  proof (cases "e = Tick")
    case False
    have "now (step e w) = now w" using False
      by (cases e) (simp_all add: sendCommand_def)
    with Cons.IH [OF awaiting_step [OF Cons.prems(1) se False] sevs] False
    show ?thesis by simp
  next
    case True
    show ?thesis
    proof (cases "now w + 1 < dl")
      case early: True
      from Cons.IH [OF awaiting_tick_early [OF Cons.prems(1) early] sevs] True
      show ?thesis by simp
    next
      case False
      with lt have "now w + 1 = dl" by simp
      from timed_out_run [OF awaiting_tick_due [OF Cons.prems(1) this] sevs] True False
      show ?thesis by simp
    qed
  qed
qed

subsection \<open>Idle time\<close>

lemma fold_run_timer_Nil_filter:
  "list_all (\<lambda>tm. t < fst tm) tms \<Longrightarrow> filter (is_due t) tms = []"
  by (induction tms) (auto simp: is_due_def)

lemma filter_not_due:
  "list_all (\<lambda>tm. t < fst tm) tms \<Longrightarrow> filter (\<lambda>tm. \<not> is_due t tm) tms = tms"
  by (induction tms) (auto simp: is_due_def)

lemma run_intervals_idle:
  "list_all (\<lambda>d. t < d) ds \<Longrightarrow> run_intervals t ds w = w"
  by (induction ds arbitrary: w) auto

lemma rearm_idle:
  "list_all (\<lambda>d. t < d) ds \<Longrightarrow> map (rearm t) ds = ds"
  by (induction ds) (auto simp: rearm_def)

lemma tick_idle:
  assumes "list_all (\<lambda>tm. now w + 1 < fst tm) (timeouts w)"
    and "list_all (\<lambda>d. now w + 1 < d) (intervals w)"
  shows "tick w = w\<lparr>now := now w + 1\<rparr>"
  using assms
  by (simp add: tick_def Let_def fold_run_timer_Nil_filter filter_not_due run_intervals_idle
      rearm_idle)

lemma advance_idle:
  "list_all (\<lambda>tm. now w + d < fst tm) (timeouts w) \<Longrightarrow>
   list_all (\<lambda>i. now w + d < i) (intervals w) \<Longrightarrow>
   advance d w = w\<lparr>now := now w + d\<rparr>"
proof (induction d arbitrary: w)
  case 0
  then show ?case by simp
next
  case (Suc d)
  have 1: "list_all (\<lambda>tm. now w + 1 < fst tm) (timeouts w)"
    using Suc.prems(1) by (auto simp: list_all_iff)
  have 2: "list_all (\<lambda>i. now w + 1 < i) (intervals w)"
    using Suc.prems(2) by (auto simp: list_all_iff)
  have t: "tick w = w\<lparr>now := now w + 1\<rparr>" by (rule tick_idle [OF 1 2])
  have "advance d (tick w) = (tick w)\<lparr>now := now (tick w) + d\<rparr>"
    using Suc.prems by (intro Suc.IH) (simp_all add: t)
  then show ?case by (simp add: t)
qed

lemma advance_add: "advance (a + b) w = advance b (advance a w)"
  by (induction a arbitrary: w) simp_all

lemma advance_then_tick: "advance (Suc d) w = tick (advance d w)"
  using advance_add [of d 1 w] by simp


lemma ticks_replicate [simp]: "ticks (replicate n Tick) = n"
  by (induction n) simp_all

lemma advance_no_timers:
  "timeouts w = [] \<Longrightarrow>
   promises (advance d w) = promises w \<and> responseCallbacks (advance d w) = responseCallbacks w
   \<and> timeouts (advance d w) = []"
proof (induction d arbitrary: w)
  case 0
  then show ?case by simp
next
  case (Suc d)
  have "promises (tick w) = promises w" "responseCallbacks (tick w) = responseCallbacks w"
    "timeouts (tick w) = []"
    using Suc.prems by (simp_all add: tick_promises tick_rc fun_eq_iff)
  with Suc.IH [of "tick w"] show ?case by simp
qed

subsection \<open>Runs on concrete clients\<close>

lemma getChannelPath_1: "getChannelPath 1 = ''/ch/01''"
  by (simp add: getChannelPath_def padStart_def toString_def digit_def)

lemma connect_new:
  "fst (connect None (new_OSCClient h pt)) =
     \<lparr>host = h, port = pt, responseCallbacks = Map.empty, isConnected = True,
      socket_open = True, sent = [xcontrol], console = [''OSC UDP Port ready''],
      promises = [], timeouts = [], intervals = [9000], now = 0\<rparr>"
  by (simp add: connect_def new_OSCClient_def sendCommand_def xcontrol_def)

lemma sent_connect_new: "sent (fst (connect None (new_OSCClient h p))) = [xcontrol]"
  by (simp add: connect_def new_OSCClient_def sendCommand_def xcontrol_def)

lemmas tick_eval =
  tick_def Let_def is_due_def run_timer_def timeout_callback_def reject_def settle_def
  rearm_def

lemma call_times_out:
  assumes w: "well_formed w" and free: "list_all (\<lambda>tm. fst (snd tm) \<noteq> A) (timeouts w)"
    and evs: "list_all (silent A) evs"
  shows "if ticks evs < 1000
         then responseCallbacks (run evs (fst (sendAndReceive A as w))) A = Some (length (promises w))
            \<and> promise (run evs (fst (sendAndReceive A as w))) (length (promises w)) = Some Pending
         else responseCallbacks (run evs (fst (sendAndReceive A as w))) A = None
            \<and> promise (run evs (fst (sendAndReceive A as w))) (length (promises w))
                = Some (Rejected (timeout_error A))"
proof -
  let ?w1 = "fst (sendAndReceive A as w)"
  have a: "awaiting (now ?w1 + 1000) A (length (promises w)) ?w1"
    using awaiting_issue [OF w free, of as] by simp
  show ?thesis
  proof (cases "ticks evs < 1000")
    case True
    with awaiting_run [OF a evs] have aw: "awaiting (now ?w1 + 1000) A (length (promises w)) (run evs ?w1)"
      by simp
    then have "well_formed (run evs ?w1)"
      and rc: "responseCallbacks (run evs ?w1) A = Some (length (promises w))"
      by (simp_all add: awaiting_def)
    then show ?thesis using True well_formed_bound [of "run evs ?w1" A] well_formed_pending [of "run evs ?w1" A]
      by (simp add: promise_def)
  next
    case False
    with awaiting_run [OF a evs] have "timed_out A (length (promises w)) (run evs ?w1)"
      by simp
    then show ?thesis using False by (simp add: timed_out_def promise_def)
  qed
qed


lemma traffic_ticks: "list_all traffic (replicate n Tick)"
  by (induction n) simp_all

lemma overlapping_calls:
  fixes A :: string and h :: string and pt :: int
  defines "w0 \<equiv> fst (connect None (new_OSCClient h pt))"
  defines "w1 \<equiv> fst (sendAndReceive A [] w0)"
  defines "w2 \<equiv> fst (sendAndReceive A [] (advance 500 w1))"
  defines "w3 \<equiv> advance 1000 w2"
  shows "snd (sendAndReceive A [] w0) = 0 \<and> snd (sendAndReceive A [] (advance 500 w1)) = 1
       \<and> promises w3 = [Rejected (timeout_error A), Pending]
       \<and> responseCallbacks w3 = Map.empty \<and> timeouts w3 = [] \<and> now w3 = 1500"
proof -
  let ?req = "\<lparr>address = A, args = []\<rparr>"
  have e1: "w1 = \<lparr>host = h, port = pt, responseCallbacks = [A \<mapsto> 0], isConnected = True,
      socket_open = True, sent = [xcontrol, ?req], console = [''OSC UDP Port ready''],
      promises = [Pending], timeouts = [(1000, A, 0)], intervals = [9000], now = 0\<rparr>"
    by (simp add: w1_def w0_def connect_new sendAndReceive_eq set_timeout_def sendCommand_def)
  have e1': "advance 500 w1 = w1\<lparr>now := 500\<rparr>"
    using advance_idle [of w1 500] by (simp add: e1)
  have e2: "w2 = \<lparr>host = h, port = pt, responseCallbacks = [A \<mapsto> 1], isConnected = True,
      socket_open = True, sent = [xcontrol, ?req, ?req], console = [''OSC UDP Port ready''],
      promises = [Pending, Pending], timeouts = [(1000, A, 0), (1500, A, 1)],
      intervals = [9000], now = 500\<rparr>"
    unfolding w2_def e1' by (simp add: e1 sendAndReceive_eq set_timeout_def sendCommand_def)
  have e2': "advance 499 w2 = w2\<lparr>now := 999\<rparr>"
    using advance_idle [of w2 499] by (simp add: e2)
  have e3: "advance 500 w2 = \<lparr>host = h, port = pt, responseCallbacks = Map.empty,
      isConnected = True, socket_open = True, sent = [xcontrol, ?req, ?req],
      console = [''OSC UDP Port ready''],
      promises = [Rejected (timeout_error A), Pending], timeouts = [(1500, A, 1)],
      intervals = [9000], now = 1000\<rparr>" (is "_ = ?w")
  proof -
    have "advance 500 w2 = tick (advance 499 w2)"
      using advance_then_tick [of 499 w2] by simp
    then show ?thesis unfolding e2' by (simp add: e2 tick_eval)
  qed
  have e3': "advance 499 ?w = ?w\<lparr>now := 1499\<rparr>"
    using advance_idle [of ?w 499] by simp
  have e4: "advance 500 ?w = \<lparr>host = h, port = pt, responseCallbacks = Map.empty,
      isConnected = True, socket_open = True, sent = [xcontrol, ?req, ?req],
      console = [''OSC UDP Port ready''],
      promises = [Rejected (timeout_error A), Pending], timeouts = [],
      intervals = [9000], now = 1500\<rparr>"
  proof -
    have "advance 500 ?w = tick (advance 499 ?w)"
      using advance_then_tick [of 499 ?w] by simp
    then show ?thesis unfolding e3' by (simp add: tick_eval)
  qed
  have "w3 = advance 500 (advance 500 w2)"
    unfolding w3_def using advance_add [of 500 500 w2] by simp
  then have "w3 = advance 500 ?w" by (simp only: e3)
  then have "w3 = \<lparr>host = h, port = pt, responseCallbacks = Map.empty,
      isConnected = True, socket_open = True, sent = [xcontrol, ?req, ?req],
      console = [''OSC UDP Port ready''],
      promises = [Rejected (timeout_error A), Pending], timeouts = [],
      intervals = [9000], now = 1500\<rparr>" by (simp only: e4)
  moreover have "snd (sendAndReceive A [] (advance 500 w1)) = 1"
    unfolding e1' by (simp add: e1)
  moreover have "snd (sendAndReceive A [] w0) = 0"
    by (simp add: w0_def connect_new)
  ultimately show ?thesis by simp
qed

lemma answered_call_timer:
  fixes A :: string and h :: string and pt :: int and v :: jsval
  defines "w0 \<equiv> fst (connect None (new_OSCClient h pt))"
  defines "w1 \<equiv> on_message \<lparr>in_address = A, in_args = Some [v]\<rparr> (fst (sendAndReceive A [] w0))"
  defines "w2 \<equiv> fst (sendAndReceive A [] (advance 500 w1))"
  defines "w3 \<equiv> advance 1000 w2"
  shows "snd (sendAndReceive A [] (advance 500 w1)) = 1
       \<and> promises w3 = [Fulfilled v, Pending]
       \<and> responseCallbacks w3 = Map.empty \<and> timeouts w3 = [] \<and> now w3 = 1500"
proof -
  let ?req = "\<lparr>address = A, args = []\<rparr>"
  have e1: "w1 = \<lparr>host = h, port = pt, responseCallbacks = Map.empty, isConnected = True,
      socket_open = True, sent = [xcontrol, ?req], console = [''OSC UDP Port ready''],
      promises = [Fulfilled v], timeouts = [(1000, A, 0)], intervals = [9000], now = 0\<rparr>"
    by (simp add: w1_def w0_def connect_new sendAndReceive_eq set_timeout_def sendCommand_def
        on_message_def resolve_def settle_def)
  have e1': "advance 500 w1 = w1\<lparr>now := 500\<rparr>"
    using advance_idle [of w1 500] by (simp add: e1)
  have e2: "w2 = \<lparr>host = h, port = pt, responseCallbacks = [A \<mapsto> 1], isConnected = True,
      socket_open = True, sent = [xcontrol, ?req, ?req], console = [''OSC UDP Port ready''],
      promises = [Fulfilled v, Pending], timeouts = [(1000, A, 0), (1500, A, 1)],
      intervals = [9000], now = 500\<rparr>"
    unfolding w2_def e1' by (simp add: e1 sendAndReceive_eq set_timeout_def sendCommand_def)
  have e2': "advance 499 w2 = w2\<lparr>now := 999\<rparr>"
    using advance_idle [of w2 499] by (simp add: e2)
  have e3: "advance 500 w2 = \<lparr>host = h, port = pt, responseCallbacks = Map.empty,
      isConnected = True, socket_open = True, sent = [xcontrol, ?req, ?req],
      console = [''OSC UDP Port ready''],
      promises = [Fulfilled v, Pending], timeouts = [(1500, A, 1)],
      intervals = [9000], now = 1000\<rparr>" (is "_ = ?w")
  proof -
    have "advance 500 w2 = tick (advance 499 w2)"
      using advance_then_tick [of 499 w2] by simp
    then show ?thesis unfolding e2' by (simp add: e2 tick_eval)
  qed
  have e3': "advance 499 ?w = ?w\<lparr>now := 1499\<rparr>"
    using advance_idle [of ?w 499] by simp
  have e4: "advance 500 ?w = \<lparr>host = h, port = pt, responseCallbacks = Map.empty,
      isConnected = True, socket_open = True, sent = [xcontrol, ?req, ?req],
      console = [''OSC UDP Port ready''],
      promises = [Fulfilled v, Pending], timeouts = [],
      intervals = [9000], now = 1500\<rparr>"
  proof -
    have "advance 500 ?w = tick (advance 499 ?w)"
      using advance_then_tick [of 499 ?w] by simp
    then show ?thesis unfolding e3' by (simp add: tick_eval)
  qed
  have "w3 = advance 500 (advance 500 w2)"
    unfolding w3_def using advance_add [of 500 500 w2] by simp
  then have "w3 = \<lparr>host = h, port = pt, responseCallbacks = Map.empty,
      isConnected = True, socket_open = True, sent = [xcontrol, ?req, ?req],
      console = [''OSC UDP Port ready''],
      promises = [Fulfilled v, Pending], timeouts = [],
      intervals = [9000], now = 1500\<rparr>" by (simp only: e3 e4)
  moreover have "snd (sendAndReceive A [] (advance 500 w1)) = 1"
    unfolding e1' by (simp add: e1)
  ultimately show ?thesis by simp
qed

subsection \<open>Rounding\<close>

text \<open>
  A conversion \<open>x \<mapsto> (x + K) / D\<close> followed by its inverse \<open>v \<mapsto> v * D - K\<close>, every
  operation rounded: the result is within \<open>6 u (\<bar>x\<bar> + \<bar>K\<bar>)\<close> of \<open>x\<close>, and it is \<open>x\<close> when
  the rounding leaves \<open>x + K\<close>, \<open>(x + K) / D\<close> and \<open>x\<close> as they are.
\<close>

lemma affine_round_trip:
  assumes r: "rounds_to u fl" and u8: "u \<le> 1/8" and D: "D \<noteq> 0"
  shows "\<bar>fl (fl (fl (fl (x + K) / D) * D) - K) - x\<bar> \<le> 6 * u * (\<bar>x\<bar> + \<bar>K\<bar>)"
proof -
  from r have u0: "0 \<le> u" and fl: "\<And>y. \<bar>fl y - y\<bar> \<le> u * \<bar>y\<bar>"
    by (simp_all add: rounds_to_def)
  define s where "s = \<bar>x + K\<bar>"
  define a where "a = fl (x + K)"
  define b where "b = fl (a / D)"
  define c where "c = fl (b * D)"
  define d where "d = fl (c - K)"
  have s0: "0 \<le> s" by (simp add: s_def)
  have sK: "s \<le> \<bar>x\<bar> + \<bar>K\<bar>" by (simp add: s_def)
  have a1: "\<bar>a - (x + K)\<bar> \<le> u * s" unfolding a_def s_def by (rule fl)
  have a2: "\<bar>a\<bar> \<le> (1 + u) * s"
  proof -
    have "\<bar>a\<bar> \<le> \<bar>a - (x + K)\<bar> + \<bar>x + K\<bar>" by simp
    also have "\<dots> \<le> u * s + s" using a1 by (simp add: s_def)
    finally show ?thesis by (simp add: algebra_simps)
  qed
  have b1: "\<bar>b * D - a\<bar> \<le> u * \<bar>a\<bar>"
  proof -
    have "\<bar>b - a / D\<bar> \<le> u * \<bar>a / D\<bar>" unfolding b_def by (rule fl)
    then have "\<bar>b - a / D\<bar> * \<bar>D\<bar> \<le> u * \<bar>a / D\<bar> * \<bar>D\<bar>"
      by (rule mult_right_mono) simp
    moreover have "\<bar>b - a / D\<bar> * \<bar>D\<bar> = \<bar>b * D - a\<bar>"
      using D by (simp add: abs_mult [symmetric] algebra_simps)
    moreover have "u * \<bar>a / D\<bar> * \<bar>D\<bar> = u * \<bar>a\<bar>" using D by (simp add: abs_divide)
    ultimately show ?thesis by simp
  qed
  have ua: "u * \<bar>a\<bar> \<le> u * ((1 + u) * s)" using a2 u0 by (rule mult_left_mono)
  have b2: "\<bar>b * D\<bar> \<le> (1 + u) * ((1 + u) * s)"
  proof -
    have "\<bar>b * D\<bar> \<le> \<bar>b * D - a\<bar> + \<bar>a\<bar>" by simp
    also have "\<dots> \<le> u * \<bar>a\<bar> + \<bar>a\<bar>" using b1 by simp
    also have "\<dots> = (1 + u) * \<bar>a\<bar>" by (simp add: algebra_simps)
    also have "\<dots> \<le> (1 + u) * ((1 + u) * s)" using a2 u0 by (intro mult_left_mono) simp_all
    finally show ?thesis .
  qed
  have c1: "\<bar>c - b * D\<bar> \<le> u * ((1 + u) * ((1 + u) * s))"
  proof -
    have "\<bar>c - b * D\<bar> \<le> u * \<bar>b * D\<bar>" unfolding c_def by (rule fl)
    also have "\<dots> \<le> u * ((1 + u) * ((1 + u) * s))" using b2 u0 by (rule mult_left_mono)
    finally show ?thesis .
  qed
  have u1: "1 + u \<le> 9/8" using u8 by simp
  have us: "0 \<le> u * s" using u0 s0 by simp
  have m1: "u * ((1 + u) * s) \<le> (9/8) * (u * s)"
  proof -
    have "(1 + u) * (u * s) \<le> (9/8) * (u * s)" using u1 us by (rule mult_right_mono)
    then show ?thesis by (simp add: algebra_simps)
  qed
  have m2: "u * ((1 + u) * ((1 + u) * s)) \<le> (9/8) * ((9/8) * (u * s))"
  proof -
    have "(1 + u) * (u * ((1 + u) * s)) \<le> (9/8) * (u * ((1 + u) * s))"
      using u1 by (rule mult_right_mono) (use u0 s0 in simp)
    also have "\<dots> \<le> (9/8) * ((9/8) * (u * s))" by (rule mult_left_mono [OF m1]) simp
    finally show ?thesis by (simp add: algebra_simps)
  qed
  have e: "\<bar>c - (x + K)\<bar> \<le> 4 * (u * s)"
  proof -
    have "c - (x + K) = (c - b * D) + (b * D - a) + (a - (x + K))" by simp
    then have "\<bar>c - (x + K)\<bar> \<le> \<bar>c - b * D\<bar> + \<bar>b * D - a\<bar> + \<bar>a - (x + K)\<bar>"
      by linarith
    also have "\<dots> \<le> (9/8) * ((9/8) * (u * s)) + (9/8) * (u * s) + u * s"
      using c1 m2 b1 ua m1 a1 by linarith
    also have "\<dots> \<le> 4 * (u * s)" using us by linarith
    finally show ?thesis .
  qed
  have ck: "\<bar>c - K\<bar> \<le> \<bar>x\<bar> + 4 * (u * s)"
  proof -
    have "c - K = x + (c - (x + K))" by simp
    then have "\<bar>c - K\<bar> \<le> \<bar>x\<bar> + \<bar>c - (x + K)\<bar>" by linarith
    with e show ?thesis by linarith
  qed
  have d1: "\<bar>d - (c - K)\<bar> \<le> u * (\<bar>x\<bar> + 4 * (u * s))"
  proof -
    have "\<bar>d - (c - K)\<bar> \<le> u * \<bar>c - K\<bar>" unfolding d_def by (rule fl)
    also have "\<dots> \<le> u * (\<bar>x\<bar> + 4 * (u * s))" using ck u0 by (rule mult_left_mono)
    finally show ?thesis .
  qed
  have uus: "u * (u * s) \<le> (1/8) * (u * s)" using u8 us by (rule mult_right_mono)
  have "d - x = (d - (c - K)) + (c - (x + K))" by simp
  then have "\<bar>d - x\<bar> \<le> \<bar>d - (c - K)\<bar> + \<bar>c - (x + K)\<bar>" by linarith
  also have "\<dots> \<le> u * (\<bar>x\<bar> + 4 * (u * s)) + 4 * (u * s)" using d1 e by linarith
  also have "\<dots> = u * \<bar>x\<bar> + 4 * (u * (u * s)) + 4 * (u * s)" by (simp add: algebra_simps)
  also have "\<dots> \<le> u * \<bar>x\<bar> + 5 * (u * s)" using uus us by linarith
  also have "\<dots> \<le> u * \<bar>x\<bar> + 5 * (u * (\<bar>x\<bar> + \<bar>K\<bar>))"
    using mult_left_mono [OF sK u0] by linarith
  also have "\<dots> \<le> 6 * u * (\<bar>x\<bar> + \<bar>K\<bar>)"
  proof -
    have "0 \<le> u * \<bar>K\<bar>" using u0 by simp
    then show ?thesis by (simp add: algebra_simps)
  qed
  finally show ?thesis by (simp add: d_def c_def b_def a_def)
qed


lemma affine_exact:
  fixes x K D :: real
  assumes "D \<noteq> 0" and "fl (x + K) = x + K" and "fl ((x + K) / D) = (x + K) / D"
    and "fl x = x"
  shows "fl (fl (fl (fl (x + K) / D) * D) - K) = x"
proof -
  have "(x + K) / D * D = x + K" using assms(1) by simp
  then have "fl (fl (fl (x + K) / D) * D) = x + K" by (simp only: assms)
  then show ?thesis by (simp add: assms)
qed

lemma toString_1: "toString 1 = ''1''"
  by (simp add: toString_def digit_def)

subsection \<open>A timer that outlives its call\<close>

text \<open>
  With no entry registered, time settles no promise. A call that was answered leaves its
  timer armed: a second call on the address, issued \<open>s\<close> ms after the first, is
  registered until the first call's timer runs, 1000 ms after the first call, and removes
  the entry.
\<close>

lemma fold_run_timer_no_entries:
  "responseCallbacks w = Map.empty \<Longrightarrow> fold run_timer tms w = w"
  by (induction tms) (simp_all add: run_timer_def timeout_callback_def)

lemma advance_no_entries:
  "responseCallbacks w = Map.empty \<Longrightarrow>
   promises (advance d w) = promises w \<and> responseCallbacks (advance d w) = Map.empty"
proof (induction d arbitrary: w)
  case 0
  then show ?case by simp
next
  case (Suc d)
  have "promises (tick w) = promises w" "responseCallbacks (tick w) = Map.empty"
    using Suc.prems by (simp_all add: tick_promises tick_rc fun_eq_iff fold_run_timer_no_entries)
  with Suc.IH [of "tick w"] show ?case by simp
qed

lemma on_message_no_entry:
  "responseCallbacks w (in_address m) = None \<Longrightarrow> on_message m w = w"
  by (simp add: on_message_def)

lemma on_message_no_args:
  "in_args m = Some [] \<or> in_args m = None \<Longrightarrow> on_message m w = w"
  by (auto simp: on_message_def split: option.splits)

lemma stale_timer:
  fixes A :: string and h :: string and pt :: int and v :: jsval and s :: nat
  assumes s: "0 < s" "s < 1000"
  defines "w0 \<equiv> fst (connect None (new_OSCClient h pt))"
  defines "w1 \<equiv> on_message \<lparr>in_address = A, in_args = Some [v]\<rparr> (fst (sendAndReceive A [] w0))"
  defines "w2 \<equiv> fst (sendAndReceive A [] (advance s w1))"
  shows "snd (sendAndReceive A [] (advance s w1)) = 1"
    and "responseCallbacks w2 = [A \<mapsto> 1]"
    and "promises w2 = [Fulfilled v, Pending]"
    and "d + s < 1000 \<Longrightarrow> advance d w2 = w2\<lparr>now := s + d\<rparr>"
    and "responseCallbacks (advance (1000 - s) w2) = Map.empty"
    and "promises (advance (1000 - s) w2) = [Fulfilled v, Pending]"
proof -
  let ?req = "\<lparr>address = A, args = []\<rparr>"
  have e1: "w1 = \<lparr>host = h, port = pt, responseCallbacks = Map.empty, isConnected = True,
      socket_open = True, sent = [xcontrol, ?req], console = [''OSC UDP Port ready''],
      promises = [Fulfilled v], timeouts = [(1000, A, 0)], intervals = [9000], now = 0\<rparr>"
    by (simp add: w1_def w0_def connect_new sendAndReceive_eq set_timeout_def sendCommand_def
        on_message_def resolve_def settle_def)
  have e1': "advance s w1 = w1\<lparr>now := s\<rparr>"
    using advance_idle [of w1 s] s by (simp add: e1)
  have e2: "w2 = \<lparr>host = h, port = pt, responseCallbacks = [A \<mapsto> 1], isConnected = True,
      socket_open = True, sent = [xcontrol, ?req, ?req], console = [''OSC UDP Port ready''],
      promises = [Fulfilled v, Pending], timeouts = [(1000, A, 0), (s + 1000, A, 1)],
      intervals = [9000], now = s\<rparr>"
    unfolding w2_def e1' by (simp add: e1 sendAndReceive_eq set_timeout_def sendCommand_def)
  show "snd (sendAndReceive A [] (advance s w1)) = 1"
    unfolding e1' by (simp add: e1)
  show "responseCallbacks w2 = [A \<mapsto> 1]" "promises w2 = [Fulfilled v, Pending]"
    by (simp_all add: e2)
  have idle: "advance d w2 = w2\<lparr>now := s + d\<rparr>" if "d + s < 1000" for d
    using advance_idle [of w2 d] that by (simp add: e2)
  show "d + s < 1000 \<Longrightarrow> advance d w2 = w2\<lparr>now := s + d\<rparr>" by (rule idle)
  have "advance (Suc (999 - s)) w2 = tick (advance (999 - s) w2)"
    by (rule advance_then_tick)
  moreover have "Suc (999 - s) = 1000 - s" using s by simp
  moreover have "advance (999 - s) w2 = w2\<lparr>now := 999\<rparr>"
    using idle [of "999 - s"] s by simp
  ultimately have "advance (1000 - s) w2 = tick (w2\<lparr>now := 999\<rparr>)" by simp
  also have "\<dots> = \<lparr>host = h, port = pt, responseCallbacks = Map.empty,
      isConnected = True, socket_open = True, sent = [xcontrol, ?req, ?req],
      console = [''OSC UDP Port ready''],
      promises = [Fulfilled v, Pending], timeouts = [(s + 1000, A, 1)],
      intervals = [9000], now = 1000\<rparr>"
    using s by (simp add: e2 tick_eval)
  finally show "responseCallbacks (advance (1000 - s) w2) = Map.empty"
    and "promises (advance (1000 - s) w2) = [Fulfilled v, Pending]"
    by simp_all
qed

section \<open>Response correlator\<close>

text \<open>
  In every state a client can reach, a call that is registered under address \<open>A\<close> is
  pending. A datagram with exactly the address \<open>A\<close> and at least one argument resolves
  that call with the first argument and removes the entry; a datagram for another address
  leaves the call pending and registered. Every \<open>sendAndReceive\<close> registers its call under
  its address.
\<close>

lemma correlation_by_address:
  assumes w: "w = run evs (new_OSCClient h pt)"
    and rc: "responseCallbacks w A = Some p"
  shows "promise w p = Some Pending
       \<and> (in_address m = A \<and> in_args m = Some (v # vs) \<longrightarrow>
            promise (on_message m w) p = Some (Fulfilled v)
            \<and> responseCallbacks (on_message m w) A = None)
       \<and> (in_address m' \<noteq> A \<longrightarrow>
            promise (on_message m' w) p = Some Pending
            \<and> responseCallbacks (on_message m' w) A = Some p)
       \<and> responseCallbacks (fst (sendAndReceive B bs w)) B = Some (snd (sendAndReceive B bs w))
       \<and> promise (fst (sendAndReceive B bs w)) (snd (sendAndReceive B bs w)) = Some Pending"
proof -
  have well_formed: "well_formed w" unfolding w by (rule well_formed_reachable)
  have b: "p < length (promises w)" and pe: "promises w ! p = Pending"
    using well_formed_bound [OF well_formed rc] well_formed_pending [OF well_formed rc] by simp_all
  have 1: "promise w p = Some Pending" using b pe by (simp add: promise_def)
  have 2: "promise (on_message m w) p = Some (Fulfilled v)
        \<and> responseCallbacks (on_message m w) A = None"
    if "in_address m = A" "in_args m = Some (v # vs)"
    using that rc b pe by (simp add: on_message_def resolve_def settle_def promise_def)
  have 3: "promise (on_message m' w) p = Some Pending
        \<and> responseCallbacks (on_message m' w) A = Some p"
    if ne: "in_address m' \<noteq> A"
  proof (cases "responseCallbacks w (in_address m')")
    case None
    then show ?thesis using 1 rc by (simp add: on_message_def)
  next
    case (Some q)
    have "q \<noteq> p" using well_formed_inj [OF well_formed rc, of "in_address m'"] Some ne by auto
    then have "promises (settle q r w) ! p = Pending" for r
      using pe by (simp add: settle_promises)
    then have "promises (on_message m' w) ! p = Pending"
      using Some pe by (simp add: on_message_promises split: option.splits list.splits)
    then show ?thesis using b rc ne by (simp add: promise_def on_message_rc)
  qed
  have 4: "responseCallbacks (fst (sendAndReceive B bs w)) B = Some (snd (sendAndReceive B bs w))"
    by simp
  have 5: "promise (fst (sendAndReceive B bs w)) (snd (sendAndReceive B bs w)) = Some Pending"
    by (simp add: promise_def)
  from 2 have c2: "in_address m = A \<and> in_args m = Some (v # vs) \<longrightarrow>
      promise (on_message m w) p = Some (Fulfilled v)
      \<and> responseCallbacks (on_message m w) A = None" by auto
  from 3 have c3: "in_address m' \<noteq> A \<longrightarrow>
      promise (on_message m' w) p = Some Pending
      \<and> responseCallbacks (on_message m' w) A = Some p" by blast
  from 1 c2 c3 4 5 show ?thesis by (intro conjI)
qed

text \<open>
  C1. A reply with the call's address does not always resolve a call that is still
  pending. \<open>getFader\<close> of channel 1 is answered at once, and its timer stays armed. A
  second \<open>getFader\<close> of channel 1 is made 999 ms after the first: it is registered and
  pending. One millisecond later the first call's timer finds the second call's entry and
  removes it. The reply to the second call arrives 2 ms after the request: the address has
  no entry, the handler drops the reply, and the call is pending then and \<open>d\<close> ms later,
  for every \<open>d\<close>. No other call was outstanding when the second call was made.
\<close>

theorem reply_after_stale_timer_is_dropped:
  "snd (getFader 1 (advance 999
          (on_message \<lparr>in_address = ''/ch/01/mix/fader'', in_args = Some [Num (3/4)]\<rparr>
             (fst (getFader 1 (fst (connect None (new_OSCClient ''mixer'' 10023)))))))) = 1
   \<and> responseCallbacks
        (fst (getFader 1 (advance 999
          (on_message \<lparr>in_address = ''/ch/01/mix/fader'', in_args = Some [Num (3/4)]\<rparr>
             (fst (getFader 1 (fst (connect None (new_OSCClient ''mixer'' 10023)))))))))
        ''/ch/01/mix/fader'' = Some 1
   \<and> promise
        (fst (getFader 1 (advance 999
          (on_message \<lparr>in_address = ''/ch/01/mix/fader'', in_args = Some [Num (3/4)]\<rparr>
             (fst (getFader 1 (fst (connect None (new_OSCClient ''mixer'' 10023)))))))))
        1 = Some Pending
   \<and> responseCallbacks
        (advance 2 (fst (getFader 1 (advance 999
          (on_message \<lparr>in_address = ''/ch/01/mix/fader'', in_args = Some [Num (3/4)]\<rparr>
             (fst (getFader 1 (fst (connect None (new_OSCClient ''mixer'' 10023))))))))))
        ''/ch/01/mix/fader'' = None
   \<and> promise
        (advance 2 (fst (getFader 1 (advance 999
          (on_message \<lparr>in_address = ''/ch/01/mix/fader'', in_args = Some [Num (3/4)]\<rparr>
             (fst (getFader 1 (fst (connect None (new_OSCClient ''mixer'' 10023))))))))))
        1 = Some Pending
   \<and> on_message \<lparr>in_address = ''/ch/01/mix/fader'', in_args = Some [Num (1/2)]\<rparr>
        (advance 2 (fst (getFader 1 (advance 999
          (on_message \<lparr>in_address = ''/ch/01/mix/fader'', in_args = Some [Num (3/4)]\<rparr>
             (fst (getFader 1 (fst (connect None (new_OSCClient ''mixer'' 10023))))))))))
       = advance 2 (fst (getFader 1 (advance 999
          (on_message \<lparr>in_address = ''/ch/01/mix/fader'', in_args = Some [Num (3/4)]\<rparr>
             (fst (getFader 1 (fst (connect None (new_OSCClient ''mixer'' 10023)))))))))
   \<and> promise
        (advance d
          (on_message \<lparr>in_address = ''/ch/01/mix/fader'', in_args = Some [Num (1/2)]\<rparr>
            (advance 2 (fst (getFader 1 (advance 999
              (on_message \<lparr>in_address = ''/ch/01/mix/fader'', in_args = Some [Num (3/4)]\<rparr>
                 (fst (getFader 1 (fst (connect None (new_OSCClient ''mixer'' 10023)))))))))))) 
        1 = Some Pending"
proof -
  let ?A = "''/ch/01/mix/fader''"
  let ?w1 = "on_message \<lparr>in_address = ?A, in_args = Some [Num (3/4)]\<rparr>
      (fst (sendAndReceive ?A [] (fst (connect None (new_OSCClient ''mixer'' 10023)))))"
  let ?w2 = "fst (sendAndReceive ?A [] (advance 999 ?w1))"
  let ?w3 = "advance 2 ?w2"
  let ?m = "\<lparr>in_address = ?A, in_args = Some [Num (1/2)]\<rparr>"
  have s: "0 < (999::nat)" "(999::nat) < 1000" by simp_all
  note st = stale_timer [where s = 999 and A = ?A and v = "Num (3/4)" and h = "''mixer''"
      and pt = 10023, OF s]
  have path: "getChannelPath 1 @ ''/mix/fader'' = ?A" by (simp add: getChannelPath_1)
  have i: "snd (sendAndReceive ?A [] (advance 999 ?w1)) = 1" by (rule st(1))
  have rc2: "responseCallbacks ?w2 = [?A \<mapsto> 1]" by (rule st(2))
  have p2: "promises ?w2 = [Fulfilled (Num (3/4)), Pending]" by (rule st(3))
  have rc1000: "responseCallbacks (advance 1 ?w2) = Map.empty" using st(5) by simp
  have p1000: "promises (advance 1 ?w2) = [Fulfilled (Num (3/4)), Pending]" using st(6) by simp
  have "advance (1 + 1) ?w2 = advance 1 (advance 1 ?w2)" by (rule advance_add)
  then have w3: "?w3 = advance 1 (advance 1 ?w2)" by (simp only: one_add_one)
  have rc3: "responseCallbacks ?w3 = Map.empty"
    and p3: "promises ?w3 = [Fulfilled (Num (3/4)), Pending]"
    unfolding w3 using advance_no_entries [OF rc1000, of 1] by (simp_all only: p1000)
  have drop: "on_message ?m ?w3 = ?w3" by (rule on_message_no_entry) (simp only: rc3)
  have p4: "promises (advance d (on_message ?m ?w3)) = [Fulfilled (Num (3/4)), Pending]"
    unfolding drop using advance_no_entries [OF rc3, of d] by (simp add: p3)
  show ?thesis
    unfolding getFader_def path
    using i rc2 p2 rc3 p3 drop p4 by (simp add: promise_def)
qed

text \<open>
  C2. A call whose address never receives a reply is not always rejected with the timeout
  error. Two calls of \<open>getFader\<close> on channel 1 are made 500 ms apart on a connected
  client, and no datagram ever arrives. After 1000 ms the first call's timer finds an
  entry for the address (the second call's), removes it and rejects the first call. After
  1500 ms the second call's timer finds no entry and does nothing: the second call is
  still pending then and \<open>d\<close> ms later, for every \<open>d\<close>, with no timer left to settle it.
  The same happens when the first call was answered at once: its timer is still armed,
  and after 1000 ms it removes the entry of the second call, which no reply has reached.
\<close>

theorem second_call_never_times_out:
  "snd (getFader 1 (fst (connect None (new_OSCClient ''mixer'' 10023)))) = 0
   \<and> snd (getFader 1 (advance 500
             (fst (getFader 1 (fst (connect None (new_OSCClient ''mixer'' 10023))))))) = 1
   \<and> promise (advance d (advance 1000 (fst (getFader 1 (advance 500
             (fst (getFader 1 (fst (connect None (new_OSCClient ''mixer'' 10023)))))))))) 1
       = Some Pending
   \<and> promise (advance d (advance 1000 (fst (getFader 1 (advance 500
             (fst (getFader 1 (fst (connect None (new_OSCClient ''mixer'' 10023)))))))))) 0
       = Some (Rejected (timeout_error ''/ch/01/mix/fader''))
   \<and> responseCallbacks (advance d (advance 1000 (fst (getFader 1 (advance 500
             (fst (getFader 1 (fst (connect None (new_OSCClient ''mixer'' 10023))))))))))
        ''/ch/01/mix/fader'' = None
   \<and> timeouts (advance d (advance 1000 (fst (getFader 1 (advance 500
             (fst (getFader 1 (fst (connect None (new_OSCClient ''mixer'' 10023)))))))))) = []
   \<and> snd (getFader 1 (advance 500
             (on_message \<lparr>in_address = ''/ch/01/mix/fader'', in_args = Some [Num (3/4)]\<rparr>
                (fst (getFader 1 (fst (connect None (new_OSCClient ''mixer'' 10023)))))))) = 1
   \<and> promise (advance d (advance 1000 (fst (getFader 1 (advance 500
             (on_message \<lparr>in_address = ''/ch/01/mix/fader'', in_args = Some [Num (3/4)]\<rparr>
                (fst (getFader 1 (fst (connect None (new_OSCClient ''mixer'' 10023))))))))))) 1
       = Some Pending
   \<and> promise (advance d (advance 1000 (fst (getFader 1 (advance 500
             (on_message \<lparr>in_address = ''/ch/01/mix/fader'', in_args = Some [Num (3/4)]\<rparr>
                (fst (getFader 1 (fst (connect None (new_OSCClient ''mixer'' 10023))))))))))) 0
       = Some (Fulfilled (Num (3/4)))
   \<and> timeouts (advance d (advance 1000 (fst (getFader 1 (advance 500
             (on_message \<lparr>in_address = ''/ch/01/mix/fader'', in_args = Some [Num (3/4)]\<rparr>
                (fst (getFader 1 (fst (connect None (new_OSCClient ''mixer'' 10023))))))))))) = []"
proof -
  let ?A = "''/ch/01/mix/fader''"
  let ?w0 = "fst (connect None (new_OSCClient ''mixer'' 10023))"
  let ?w3 = "advance 1000 (fst (sendAndReceive ?A [] (advance 500
      (fst (sendAndReceive ?A [] ?w0)))))"
  let ?v3 = "advance 1000 (fst (sendAndReceive ?A [] (advance 500
      (on_message \<lparr>in_address = ?A, in_args = Some [Num (3/4)]\<rparr>
         (fst (sendAndReceive ?A [] ?w0))))))"
  note o = overlapping_calls [of ?A "''mixer''" 10023]
  from o have t: "timeouts ?w3 = []" by (elim conjE)
  from o have p: "promises ?w3 = [Rejected (timeout_error ?A), Pending]" by (elim conjE)
  from o have r: "responseCallbacks ?w3 = Map.empty" by (elim conjE)
  from o have i0: "snd (sendAndReceive ?A [] ?w0) = 0" by (elim conjE)
  from o have i1: "snd (sendAndReceive ?A [] (advance 500 (fst (sendAndReceive ?A [] ?w0)))) = 1"
    by (elim conjE)
  note a = answered_call_timer [of ?A "Num (3/4)" "''mixer''" 10023]
  from a have t': "timeouts ?v3 = []" by (elim conjE)
  from a have p': "promises ?v3 = [Fulfilled (Num (3/4)), Pending]" by (elim conjE)
  from a have j1: "snd (sendAndReceive ?A [] (advance 500
      (on_message \<lparr>in_address = ?A, in_args = Some [Num (3/4)]\<rparr>
         (fst (sendAndReceive ?A [] ?w0))))) = 1"
    by (elim conjE)
  have path: "getChannelPath 1 @ ''/mix/fader'' = ?A"
    by (simp add: getChannelPath_1)
  show ?thesis
    unfolding getFader_def path
    using advance_no_timers [OF t, of d] advance_no_timers [OF t', of d] i0 i1 j1
    by (simp add: promise_def p r p')
qed

text \<open>
  C3. The map holds at most one resolver per address. A second call on an address that
  has a call registered replaces the entry: the new call is registered, the first call's
  resolver is registered nowhere and its promise stays pending, and the next reply for the
  address resolves the second call only.
\<close>

theorem second_call_overwrites:
  assumes w: "w = run evs (new_OSCClient h pt)"
    and rc: "responseCallbacks w A = Some p0"
    and call: "sendAndReceive A as w = (w', p1)"
  shows "(\<forall>a. card {p. responseCallbacks w a = Some p} \<le> 1)
       \<and> responseCallbacks w' A = Some p1 \<and> p1 \<noteq> p0
       \<and> (\<forall>a. responseCallbacks w' a \<noteq> Some p0)
       \<and> promise w' p0 = Some Pending \<and> promise w' p1 = Some Pending
       \<and> (in_address m = A \<and> in_args m = Some (v # vs) \<longrightarrow>
            promise (on_message m w') p1 = Some (Fulfilled v)
            \<and> promise (on_message m w') p0 = Some Pending
            \<and> responseCallbacks (on_message m w') A = None)"
proof -
  have well_formed: "well_formed w" unfolding w by (rule well_formed_reachable)
  have b: "p0 < length (promises w)" and pe: "promises w ! p0 = Pending"
    using well_formed_bound [OF well_formed rc] well_formed_pending [OF well_formed rc] by simp_all
  have w': "w' = fst (sendAndReceive A as w)" using call by simp
  have "p1 = snd (sendAndReceive A as w)" using call by simp
  then have p1: "p1 = length (promises w)" by simp
  have 0: "card {p. responseCallbacks w a = Some p} \<le> 1" for a
    by (cases "responseCallbacks w a") simp_all
  have 1: "responseCallbacks w' A = Some p1" by (simp add: w' p1)
  have 2: "p1 \<noteq> p0" using b p1 by simp
  have 3: "responseCallbacks w' a \<noteq> Some p0" for a
    using well_formed_inj [OF well_formed rc, of a] 2 by (auto simp: w' p1)
  have 4: "promise w' p0 = Some Pending" "promise w' p1 = Some Pending"
    using b pe by (simp_all add: promise_def w' p1 nth_append)
  have 5: "promise (on_message m w') p1 = Some (Fulfilled v)
        \<and> promise (on_message m w') p0 = Some Pending
        \<and> responseCallbacks (on_message m w') A = None"
    if "in_address m = A" "in_args m = Some (v # vs)"
    using that b pe 2
    by (simp add: on_message_def resolve_def settle_def promise_def w' p1 nth_append)
  from 5 have c5: "in_address m = A \<and> in_args m = Some (v # vs) \<longrightarrow>
      promise (on_message m w') p1 = Some (Fulfilled v)
      \<and> promise (on_message m w') p0 = Some Pending
      \<and> responseCallbacks (on_message m w') A = None" by auto
  from 0 have c0: "\<forall>a. card {p. responseCallbacks w a = Some p} \<le> 1" by blast
  from 3 have c3: "\<forall>a. responseCallbacks w' a \<noteq> Some p0" by blast
  from c0 1 2 c3 4 c5 show ?thesis by (intro conjI)
qed

text \<open>
  C3 at work: two calls on \<open>/info\<close> in a row.
\<close>

theorem second_call_overwrites_witness:
  "responseCallbacks
     (run [Connect None, SendAndReceive ''/info'' []] (new_OSCClient ''mixer'' 10023)) ''/info''
     = Some 0
   \<and> sendAndReceive ''/info'' []
       (run [Connect None, SendAndReceive ''/info'' []] (new_OSCClient ''mixer'' 10023))
     = (fst (sendAndReceive ''/info'' []
          (run [Connect None, SendAndReceive ''/info'' []] (new_OSCClient ''mixer'' 10023))), 1)
   \<and> responseCallbacks (fst (sendAndReceive ''/info'' []
          (run [Connect None, SendAndReceive ''/info'' []] (new_OSCClient ''mixer'' 10023))))
        ''/info'' = Some 1
   \<and> promise (fst (sendAndReceive ''/info'' []
          (run [Connect None, SendAndReceive ''/info'' []] (new_OSCClient ''mixer'' 10023)))) 0
       = Some Pending"
proof -
  have rc: "responseCallbacks
     (run [Connect None, SendAndReceive ''/info'' []] (new_OSCClient ''mixer'' 10023)) ''/info''
     = Some 0"
    by (simp add: new_OSCClient_def)
  have call: "sendAndReceive ''/info'' []
       (run [Connect None, SendAndReceive ''/info'' []] (new_OSCClient ''mixer'' 10023))
     = (fst (sendAndReceive ''/info'' []
          (run [Connect None, SendAndReceive ''/info'' []] (new_OSCClient ''mixer'' 10023))), 1)"
    by (simp add: prod_eq_iff new_OSCClient_def)
  from second_call_overwrites [OF refl rc call] show ?thesis using rc call by simp
qed

text \<open>
  C7. \<open>sendAndReceive\<close> goes through three states: after storing the callback, after
  \<open>sendCommand\<close>, after arming the timer. In the first nothing has been sent yet and the
  waiter is registered; the request joins the sent log in the second; the waiter is
  registered in all three.
\<close>

theorem waiter_registered_before_send:
  assumes "sendAndReceive_steps a as w = (ws, p)"
  shows "length ws = 3
       \<and> sent (ws ! 0) = sent w \<and> responseCallbacks (ws ! 0) a = Some p
       \<and> ws ! 1 = sendCommand a as (ws ! 0)
       \<and> sent (ws ! 1) = (if isConnected w then sent w @ [\<lparr>address = a, args = as\<rparr>] else sent w)
       \<and> (\<forall>s \<in> set ws. responseCallbacks s a = Some p)
       \<and> sendAndReceive a as w = (ws ! 2, p)"
  using assms
  by (auto simp: sendAndReceive_steps_def sendAndReceive_def register_callback_def
      set_timeout_def Let_def sendCommand_sent)

text \<open>
  C7 at work: a call on \<open>/info\<close> on a connected client.
\<close>

theorem waiter_registered_before_send_witness:
  "snd (sendAndReceive_steps ''/info'' [] (fst (connect None (new_OSCClient ''mixer'' 10023)))) = 0
   \<and> sent (fst (sendAndReceive_steps ''/info'' []
               (fst (connect None (new_OSCClient ''mixer'' 10023)))) ! 0) = [xcontrol]
   \<and> responseCallbacks (fst (sendAndReceive_steps ''/info'' []
               (fst (connect None (new_OSCClient ''mixer'' 10023)))) ! 0) ''/info'' = Some 0
   \<and> sent (fst (sendAndReceive_steps ''/info'' []
               (fst (connect None (new_OSCClient ''mixer'' 10023)))) ! 1)
       = [xcontrol, \<lparr>address = ''/info'', args = []\<rparr>]"
proof -
  have p: "snd (sendAndReceive_steps ''/info'' []
      (fst (connect None (new_OSCClient ''mixer'' 10023)))) = 0"
    by (simp add: sendAndReceive_steps_def register_callback_def Let_def new_OSCClient_def)
  have h: "sendAndReceive_steps ''/info'' [] (fst (connect None (new_OSCClient ''mixer'' 10023)))
     = (fst (sendAndReceive_steps ''/info'' [] (fst (connect None (new_OSCClient ''mixer'' 10023)))), 0)"
    using p by (simp add: prod_eq_iff)
  have c: "isConnected (fst (connect None (new_OSCClient ''mixer'' 10023)))" by simp
  note t = waiter_registered_before_send [OF h]
  from t have 1: "sent (fst (sendAndReceive_steps ''/info'' []
      (fst (connect None (new_OSCClient ''mixer'' 10023)))) ! 0)
      = sent (fst (connect None (new_OSCClient ''mixer'' 10023)))"
    by (elim conjE)
  from t have 2: "responseCallbacks (fst (sendAndReceive_steps ''/info'' []
      (fst (connect None (new_OSCClient ''mixer'' 10023)))) ! 0) ''/info'' = Some 0"
    by (elim conjE)
  from t have 3: "sent (fst (sendAndReceive_steps ''/info'' []
      (fst (connect None (new_OSCClient ''mixer'' 10023)))) ! 1)
      = (if isConnected (fst (connect None (new_OSCClient ''mixer'' 10023)))
         then sent (fst (connect None (new_OSCClient ''mixer'' 10023)))
              @ [\<lparr>address = ''/info'', args = []\<rparr>]
         else sent (fst (connect None (new_OSCClient ''mixer'' 10023))))"
    by (elim conjE)
  show ?thesis
    using p 1 2 3 by (simp only: sent_connect_new c if_True append_Cons append_Nil simp_thms)
qed

text \<open>
  A datagram whose argument list is empty or missing changes nothing, whatever its
  address. A call on the datagram's address, issued when no timer for that address is
  pending, stays registered and pending while fewer than 1000 ms have passed, and is
  rejected with the timeout error and removed once 1000 ms have passed, the empty reply
  arriving anywhere in between; the other events are any that neither call the address
  again nor deliver a reply with an argument for it.
\<close>

lemma empty_reply_is_ignored:
  assumes m: "in_args m = Some [] \<or> in_args m = None"
    and w: "w = run evs0 (new_OSCClient h pt)"
    and free: "list_all (\<lambda>tm. fst (snd tm) \<noteq> in_address m) (timeouts w)"
    and call: "sendAndReceive (in_address m) as w = (w1, p)"
    and evs: "list_all (silent (in_address m)) evs1" "list_all (silent (in_address m)) evs2"
  shows "on_message m w' = w'
       \<and> responseCallbacks (on_message m w1) (in_address m) = Some p
       \<and> promise (on_message m w1) p = Some Pending
       \<and> (ticks evs1 + ticks evs2 < 1000 \<longrightarrow>
            responseCallbacks (run (evs1 @ Message m # evs2) w1) (in_address m) = Some p
            \<and> promise (run (evs1 @ Message m # evs2) w1) p = Some Pending)
       \<and> (1000 \<le> ticks evs1 + ticks evs2 \<longrightarrow>
            responseCallbacks (run (evs1 @ Message m # evs2) w1) (in_address m) = None
            \<and> promise (run (evs1 @ Message m # evs2) w1) p
                = Some (Rejected (timeout_error (in_address m))))"
proof -
  have id: "on_message m v = v" for v
    using m by (auto simp: on_message_def split: option.splits)
  have w1: "w1 = fst (sendAndReceive (in_address m) as w)" using call by simp
  have "p = snd (sendAndReceive (in_address m) as w)" using call by simp
  then have p: "p = length (promises w)" by simp
  have well_formed: "well_formed w" unfolding w by (rule well_formed_reachable)
  have s: "list_all (silent (in_address m)) (evs1 @ Message m # evs2)"
    using evs m by auto
  have t: "ticks (evs1 @ Message m # evs2) = ticks evs1 + ticks evs2" by simp
  note c = call_times_out [OF well_formed free s, of as, unfolded t, folded p w1]
  have 1: "responseCallbacks (on_message m w1) (in_address m) = Some p"
    "promise (on_message m w1) p = Some Pending"
    by (simp_all add: id w1 p promise_def)
  have 2: "ticks evs1 + ticks evs2 < 1000 \<longrightarrow>
            responseCallbacks (run (evs1 @ Message m # evs2) w1) (in_address m) = Some p
            \<and> promise (run (evs1 @ Message m # evs2) w1) p = Some Pending"
    using c by (simp split: if_splits)
  have 3: "1000 \<le> ticks evs1 + ticks evs2 \<longrightarrow>
            responseCallbacks (run (evs1 @ Message m # evs2) w1) (in_address m) = None
            \<and> promise (run (evs1 @ Message m # evs2) w1) p
                = Some (Rejected (timeout_error (in_address m)))"
    using c by (simp split: if_splits)
  from id [of w'] 1 2 3 show ?thesis by (intro conjI)
qed

text \<open>
  C10. A datagram with an empty argument list neither resolves nor removes the call it
  matches, but the call does not always stay registered until the timeout rejects it. A
  call on \<open>/info\<close> is answered at once, and its timer stays armed. A second call on
  \<open>/info\<close> is made 500 ms after the first. 100 ms later an empty reply for \<open>/info\<close>
  arrives: the second call is registered, and the reply changes nothing. 400 ms later the
  first call's timer removes the entry: from then on, \<open>d\<close> ms later for every \<open>d\<close>, the
  second call is not registered and is still pending, never rejected.
\<close>

theorem empty_reply_then_stale_timer:
  "snd (sendAndReceive ''/info'' [] (advance 500
          (on_message \<lparr>in_address = ''/info'', in_args = Some [Str ''X32'']\<rparr>
             (fst (sendAndReceive ''/info'' []
                (fst (connect None (new_OSCClient ''mixer'' 10023)))))))) = 1
   \<and> responseCallbacks
        (advance 100 (fst (sendAndReceive ''/info'' [] (advance 500
          (on_message \<lparr>in_address = ''/info'', in_args = Some [Str ''X32'']\<rparr>
             (fst (sendAndReceive ''/info'' []
                (fst (connect None (new_OSCClient ''mixer'' 10023))))))))))
        ''/info'' = Some 1
   \<and> on_message \<lparr>in_address = ''/info'', in_args = Some []\<rparr>
        (advance 100 (fst (sendAndReceive ''/info'' [] (advance 500
          (on_message \<lparr>in_address = ''/info'', in_args = Some [Str ''X32'']\<rparr>
             (fst (sendAndReceive ''/info'' []
                (fst (connect None (new_OSCClient ''mixer'' 10023))))))))))
       = advance 100 (fst (sendAndReceive ''/info'' [] (advance 500
          (on_message \<lparr>in_address = ''/info'', in_args = Some [Str ''X32'']\<rparr>
             (fst (sendAndReceive ''/info'' []
                (fst (connect None (new_OSCClient ''mixer'' 10023)))))))))
   \<and> responseCallbacks
        (advance d (advance 400
          (on_message \<lparr>in_address = ''/info'', in_args = Some []\<rparr>
            (advance 100 (fst (sendAndReceive ''/info'' [] (advance 500
              (on_message \<lparr>in_address = ''/info'', in_args = Some [Str ''X32'']\<rparr>
                 (fst (sendAndReceive ''/info'' []
                    (fst (connect None (new_OSCClient ''mixer'' 10023))))))))))))) 
        ''/info'' = None
   \<and> promise
        (advance d (advance 400
          (on_message \<lparr>in_address = ''/info'', in_args = Some []\<rparr>
            (advance 100 (fst (sendAndReceive ''/info'' [] (advance 500
              (on_message \<lparr>in_address = ''/info'', in_args = Some [Str ''X32'']\<rparr>
                 (fst (sendAndReceive ''/info'' []
                    (fst (connect None (new_OSCClient ''mixer'' 10023))))))))))))) 
        1 = Some Pending"
proof -
  let ?A = "''/info''"
  let ?w1 = "on_message \<lparr>in_address = ?A, in_args = Some [Str ''X32'']\<rparr>
      (fst (sendAndReceive ?A [] (fst (connect None (new_OSCClient ''mixer'' 10023)))))"
  let ?w2 = "fst (sendAndReceive ?A [] (advance 500 ?w1))"
  let ?m = "\<lparr>in_address = ?A, in_args = Some []\<rparr>"
  have s: "0 < (500::nat)" "(500::nat) < 1000" by simp_all
  note st = stale_timer [where s = 500 and A = ?A and v = "Str ''X32''" and h = "''mixer''"
      and pt = 10023, OF s]
  have i: "snd (sendAndReceive ?A [] (advance 500 ?w1)) = 1" by (rule st(1))
  have rc2: "responseCallbacks ?w2 = [?A \<mapsto> 1]" by (rule st(2))
  have idle: "advance 100 ?w2 = ?w2\<lparr>now := 500 + 100\<rparr>" by (rule st(4)) simp
  have "responseCallbacks (advance 100 ?w2) = responseCallbacks ?w2"
    unfolding idle by simp
  then have rc600: "responseCallbacks (advance 100 ?w2) ?A = Some 1"
    by (simp only: rc2 fun_upd_same)
  have ign: "on_message ?m (advance 100 ?w2) = advance 100 ?w2"
    by (rule on_message_no_args) simp
  have "advance (100 + 400) ?w2 = advance 400 (advance 100 ?w2)" by (rule advance_add)
  moreover have "(100::nat) + 400 = 1000 - 500" by simp
  ultimately have w1000: "advance 400 (advance 100 ?w2) = advance (1000 - 500) ?w2"
    by (simp only:)
  have rc1000: "responseCallbacks (advance 400 (on_message ?m (advance 100 ?w2))) = Map.empty"
    unfolding ign w1000 by (rule st(5))
  have p1000: "promises (advance 400 (on_message ?m (advance 100 ?w2)))
      = [Fulfilled (Str ''X32''), Pending]"
    unfolding ign w1000 by (rule st(6))
  from advance_no_entries [OF rc1000, of d]
  have fin: "responseCallbacks (advance d (advance 400 (on_message ?m (advance 100 ?w2)))) ?A = None"
    "promise (advance d (advance 400 (on_message ?m (advance 100 ?w2)))) 1 = Some Pending"
    by (simp_all add: promise_def p1000)
  from i rc600 ign fin show ?thesis by (intro conjI)
qed

section \<open>Transport and session keeper\<close>

text \<open>
  C4, as the claim states it, fails: \<open>setFader\<close> on a client that was never connected,
  and on one that was closed, sends nothing and its promise is fulfilled, not rejected.
\<close>

theorem send_before_open_counterexample:
  "snd (setFader 1 (1/2) (new_OSCClient ''mixer'' 10023)) = Fulfilled Undefined
   \<and> sent (fst (setFader 1 (1/2) (new_OSCClient ''mixer'' 10023))) = []
   \<and> console (fst (setFader 1 (1/2) (new_OSCClient ''mixer'' 10023))) = [''OSC not connected'']
   \<and> snd (setFader 1 (1/2) (close (fst (connect None (new_OSCClient ''mixer'' 10023)))))
       = Fulfilled Undefined
   \<and> sent (fst (setFader 1 (1/2) (close (fst (connect None (new_OSCClient ''mixer'' 10023))))))
       = [xcontrol]"
  by (simp add: setFader_def sendCommand_def new_OSCClient_def close_def connect_def xcontrol_def)

text \<open>
  C4, amended. While the client is not connected, which it is before \<open>connect\<close> has
  succeeded and after \<open>close\<close>, \<open>sendCommand\<close> transmits nothing, writes
  \<open>OSC not connected\<close> to the console and returns, so the setter's promise is fulfilled.
  \<open>sendAndReceive\<close> in that state does what it always does but for the transmission:
  it registers its waiter, writes the same line, arms its 1000 ms timer and returns a
  pending promise.
\<close>

theorem send_when_not_connected:
  assumes "\<not> isConnected w"
  shows "sendCommand a as w = w\<lparr>console := console w @ [''OSC not connected'']\<rparr>
       \<and> setFader ch level w
           = (w\<lparr>console := console w @ [''OSC not connected'']\<rparr>, Fulfilled Undefined)
       \<and> sendAndReceive a as w
           = (w\<lparr>promises := promises w @ [Pending],
                responseCallbacks := (responseCallbacks w)(a \<mapsto> length (promises w)),
                console := console w @ [''OSC not connected''],
                timeouts := timeouts w @ [(now w + 1000, a, length (promises w))]\<rparr>,
              length (promises w))
       \<and> sent (fst (sendAndReceive a as w)) = sent w
       \<and> responseCallbacks (fst (sendAndReceive a as w)) a = Some (snd (sendAndReceive a as w))
       \<and> timeouts (fst (sendAndReceive a as w))
           = timeouts w @ [(now w + 1000, a, snd (sendAndReceive a as w))]
       \<and> promise (fst (sendAndReceive a as w)) (snd (sendAndReceive a as w)) = Some Pending
       \<and> \<not> isConnected (new_OSCClient h pt) \<and> \<not> isConnected (close w')
       \<and> \<not> isConnected (fst (connect (Some e) w))"
  using assms
  by (simp add: sendCommand_def setFader_def sendAndReceive_sent new_OSCClient_def
      sendAndReceive_eq set_timeout_def promise_def)

text \<open>
  C4 amended, at work: a fader command and a call on a client that was connected and
  closed.
\<close>

theorem send_when_not_connected_witness:
  "\<not> isConnected (close (fst (connect None (new_OSCClient ''mixer'' 10023))))
   \<and> sent (sendCommand ''/ch/01/mix/fader'' [Num (1/2)]
             (close (fst (connect None (new_OSCClient ''mixer'' 10023))))) = [xcontrol]
   \<and> snd (setFader 1 (1/2) (close (fst (connect None (new_OSCClient ''mixer'' 10023)))))
       = Fulfilled Undefined
   \<and> sent (fst (sendAndReceive ''/ch/01/mix/fader'' []
             (close (fst (connect None (new_OSCClient ''mixer'' 10023)))))) = [xcontrol]
   \<and> timeouts (fst (sendAndReceive ''/ch/01/mix/fader'' []
             (close (fst (connect None (new_OSCClient ''mixer'' 10023))))))
       = [(1000, ''/ch/01/mix/fader'', 0)]
   \<and> promise (fst (sendAndReceive ''/ch/01/mix/fader'' []
             (close (fst (connect None (new_OSCClient ''mixer'' 10023)))))) 0 = Some Pending"
proof -
  let ?w = "close (fst (connect None (new_OSCClient ''mixer'' 10023)))"
  have h: "\<not> isConnected ?w" by simp
  have p: "snd (sendAndReceive ''/ch/01/mix/fader'' [] ?w) = 0" by (simp add: new_OSCClient_def)
  note t = send_when_not_connected [OF h, where a = "''/ch/01/mix/fader''" and ch = 1
      and level = "1/2" and h = "''mixer''" and pt = 10023 and w' = ?w and e = "Error []"]
  from t [where as = "[Num (1/2)]"]
  have 1: "sendCommand ''/ch/01/mix/fader'' [Num (1/2)] ?w
      = ?w\<lparr>console := console ?w @ [''OSC not connected'']\<rparr>" by (elim conjE)
  from t [where as = "[]"]
  have 2: "setFader 1 (1/2) ?w
      = (?w\<lparr>console := console ?w @ [''OSC not connected'']\<rparr>, Fulfilled Undefined)"
    by (elim conjE)
  from t [where as = "[]"]
  have 3: "sent (fst (sendAndReceive ''/ch/01/mix/fader'' [] ?w)) = sent ?w" by (elim conjE)
  from t [where as = "[]"]
  have 4: "timeouts (fst (sendAndReceive ''/ch/01/mix/fader'' [] ?w))
      = timeouts ?w @ [(now ?w + 1000, ''/ch/01/mix/fader'',
          snd (sendAndReceive ''/ch/01/mix/fader'' [] ?w))]" by (elim conjE)
  from t [where as = "[]"]
  have 5: "promise (fst (sendAndReceive ''/ch/01/mix/fader'' [] ?w))
      (snd (sendAndReceive ''/ch/01/mix/fader'' [] ?w)) = Some Pending" by (elim conjE)
  have s: "sent ?w = [xcontrol]" by (simp add: sent_connect_new)
  have tm: "timeouts ?w = []" "now ?w = 0" by (simp_all add: new_OSCClient_def)
  have a: "sent (sendCommand ''/ch/01/mix/fader'' [Num (1/2)] ?w) = [xcontrol]"
    unfolding 1 by (simp add: sent_connect_new)
  have b: "snd (setFader 1 (1/2) ?w) = Fulfilled Undefined" unfolding 2 by simp
  have c: "sent (fst (sendAndReceive ''/ch/01/mix/fader'' [] ?w)) = [xcontrol]"
    unfolding 3 by (rule s)
  have d: "timeouts (fst (sendAndReceive ''/ch/01/mix/fader'' [] ?w))
      = [(1000, ''/ch/01/mix/fader'', 0)]"
    unfolding 4 p tm by simp
  have e: "promise (fst (sendAndReceive ''/ch/01/mix/fader'' [] ?w)) 0 = Some Pending"
    using 5 unfolding p .
  from h a b c d e show ?thesis by (intro conjI)
qed




text \<open>
  C6. A new client is connected, callers and the mixer do what they like, short of
  sending the two session commands themselves, the client is closed, and anything but a
  new \<open>connect\<close> follows. The session commands that were sent are \<open>/xcontrol\<close> once,
  then one \<open>/xremote\<close> for every full 9000 ms that passed between \<open>connect\<close> and
  \<open>close\<close>, and none after \<open>close\<close>.
\<close>

theorem keep_alive:
  assumes "list_all traffic evs1" and "list_all no_connect evs2"
  shows "session_commands (run evs2 (close (run evs1 (fst (connect None (new_OSCClient h p))))))
         = xcontrol # replicate (ticks evs1 div 9000) xremote"
proof -
  let ?w = "run evs1 (fst (connect None (new_OSCClient h p)))"
  have "sent (run evs2 (close ?w)) = sent ?w"
    using run_not_connected_sent [of "close ?w" evs2] assms(2) by simp
  then have "session_commands (run evs2 (close ?w)) = session_commands ?w"
    by (simp add: session_commands_def)
  also have "\<dots> = [xcontrol] @ replicate ((ticks evs1 + 0) div 9000) xremote"
    using keeper_run [OF keeper_connect assms(1), of h p] by (simp add: session_commands_connect)
  finally show ?thesis by simp
qed

text \<open>
  C6 at work: 18 seconds of connection with a fader command in between, then \<open>close\<close>.
\<close>

theorem keep_alive_witness:
  "list_all traffic
     (replicate 9000 Tick @ SendCommand ''/ch/01/mix/fader'' [Num (1/2)] # replicate 9000 Tick)
   \<and> list_all no_connect [Tick, SendCommand ''/ch/01/mix/fader'' [Num (1/2)]]
   \<and> session_commands
        (run [Tick, SendCommand ''/ch/01/mix/fader'' [Num (1/2)]]
           (close (run (replicate 9000 Tick @ SendCommand ''/ch/01/mix/fader'' [Num (1/2)]
                          # replicate 9000 Tick)
                     (fst (connect None (new_OSCClient ''mixer'' 10023))))))
       = [xcontrol, xremote, xremote]"
proof -
  have 1: "list_all traffic
     (replicate 9000 Tick @ SendCommand ''/ch/01/mix/fader'' [Num (1/2)] # replicate 9000 Tick)"
    by (simp add: traffic_ticks)
  have 2: "list_all no_connect [Tick, SendCommand ''/ch/01/mix/fader'' [Num (1/2)]]" by simp
  have 3: "ticks (replicate 9000 Tick @ SendCommand ''/ch/01/mix/fader'' [Num (1/2)]
      # replicate 9000 Tick) div 9000 = 2" by simp
  have 4: "replicate 2 xremote = [xremote, xremote]" by (simp add: numeral_2_eq_2)
  from keep_alive [OF 1 2, of "''mixer''" 10023] show ?thesis
    using 1 2 unfolding 3 4 by simp
qed

section \<open>Mute polarity\<close>

text \<open>
  C9. On a connected client \<open>muteChannel\<close> sends 0 to the channel's \<open>/mix/on\<close> to
  mute and 1 to unmute, and \<open>getMute\<close>, which asks the same address, reports muted
  exactly when the reply is 0; \<open>setGateOn\<close> and \<open>setEQOn\<close> send 1 to switch on and 0
  to switch off.
\<close>

theorem mute_polarity:
  assumes "isConnected w"
  shows "sent (fst (muteChannel ch True w))
           = sent w @ [\<lparr>address = getChannelPath ch @ ''/mix/on'', args = [Num 0]\<rparr>]
       \<and> sent (fst (muteChannel ch False w))
           = sent w @ [\<lparr>address = getChannelPath ch @ ''/mix/on'', args = [Num 1]\<rparr>]
       \<and> getMute_return (Num 0) \<and> \<not> getMute_return (Num 1)
       \<and> getMute_return v = (v = Num 0)
       \<and> fst (getMute ch w) = fst (sendAndReceive (getChannelPath ch @ ''/mix/on'') [] w)
       \<and> sent (fst (setGateOn ch True w))
           = sent w @ [\<lparr>address = getChannelPath ch @ ''/gate/on'', args = [Num 1]\<rparr>]
       \<and> sent (fst (setGateOn ch False w))
           = sent w @ [\<lparr>address = getChannelPath ch @ ''/gate/on'', args = [Num 0]\<rparr>]
       \<and> sent (fst (setEQOn ch True w))
           = sent w @ [\<lparr>address = getChannelPath ch @ ''/eq/on'', args = [Num 1]\<rparr>]
       \<and> sent (fst (setEQOn ch False w))
           = sent w @ [\<lparr>address = getChannelPath ch @ ''/eq/on'', args = [Num 0]\<rparr>]"
  using assms
  by (simp add: muteChannel_def setGateOn_def setEQOn_def getMute_return_def getMute_def
      sendCommand_sent)

text \<open>
  C9 at work, on channel 1.
\<close>

theorem mute_polarity_witness:
  "isConnected (fst (connect None (new_OSCClient ''mixer'' 10023)))
   \<and> sent (fst (muteChannel 1 True (fst (connect None (new_OSCClient ''mixer'' 10023)))))
       = [xcontrol, \<lparr>address = ''/ch/01/mix/on'', args = [Num 0]\<rparr>]
   \<and> sent (fst (muteChannel 1 False (fst (connect None (new_OSCClient ''mixer'' 10023)))))
       = [xcontrol, \<lparr>address = ''/ch/01/mix/on'', args = [Num 1]\<rparr>]
   \<and> sent (fst (setGateOn 1 True (fst (connect None (new_OSCClient ''mixer'' 10023)))))
       = [xcontrol, \<lparr>address = ''/ch/01/gate/on'', args = [Num 1]\<rparr>]
   \<and> sent (fst (setEQOn 1 True (fst (connect None (new_OSCClient ''mixer'' 10023)))))
       = [xcontrol, \<lparr>address = ''/ch/01/eq/on'', args = [Num 1]\<rparr>]"
proof -
  have c: "isConnected (fst (connect None (new_OSCClient ''mixer'' 10023)))" by simp
  have s: "sent (fst (connect None (new_OSCClient ''mixer'' 10023))) = [xcontrol]"
    by (simp add: connect_def new_OSCClient_def sendCommand_def xcontrol_def)
  from mute_polarity [OF c, of 1] show ?thesis using c by (simp add: s getChannelPath_1)
qed

section \<open>Unit codec\<close>

text \<open>
  C8. On a connected client \<open>setPan\<close> puts \<open>(pan + 1) / 2\<close> on the wire,
  \<open>setEQ\<close> puts \<open>(gain + 15) / 30\<close> and \<open>setGate\<close> puts \<open>(threshold + 80) / 80\<close>, each
  as the program computes it, for every number: nothing is clamped. The getter asks on
  the same address, receives the number of the reply and returns \<open>value * 2 - 1\<close>,
  \<open>value * 30 - 15\<close> or \<open>value * 80 - 80\<close>; a failed call stays a failure. In exact
  arithmetic each pair is inverse to the other, both ways and for every number. With
  rounding of relative error \<open>u\<close> (at most 1/8) the value read back is within
  \<open>6 u (\<bar>x\<bar> + K)\<close> of the value set, where \<open>K\<close> is 1, 15 or 80. At the boundaries and
  the midpoint (pan -1, 0, 1; gain -15, 0, 15) it is the value set, whenever the rounding
  leaves the numbers that occur there as they are, which all are doubles.
\<close>

theorem codec_round_trip:
  "(isConnected w \<longrightarrow>
      sent (fst (setPan fl ch pan w))
        = sent w @ [\<lparr>address = getChannelPath ch @ ''/mix/pan'',
                         args = [Num (fl (fl (pan + 1) / 2))]\<rparr>]
    \<and> sent (fst (setEQ fl ch band gain w))
        = sent w @ [\<lparr>address = getChannelPath ch @ ''/eq/'' @ toString band @ ''/g'',
                         args = [Num (fl (fl (gain + 15) / 30))]\<rparr>]
    \<and> sent (fst (setGate fl ch thr w))
        = sent w @ [\<lparr>address = getChannelPath ch @ ''/gate/thr'',
                         args = [Num (fl (fl (thr + 80) / 80))]\<rparr>])
   \<and> promise (on_message \<lparr>in_address = getChannelPath ch @ ''/mix/pan'', in_args = Some [Num v]\<rparr>
                (fst (getPan ch w))) (snd (getPan ch w)) = Some (Fulfilled (Num v))
   \<and> promise (on_message \<lparr>in_address = getChannelPath ch @ ''/eq/'' @ toString band @ ''/g'',
                            in_args = Some [Num v]\<rparr>
                (fst (getEQ ch band w))) (snd (getEQ ch band w)) = Some (Fulfilled (Num v))
   \<and> promise (on_message \<lparr>in_address = getChannelPath ch @ ''/gate/thr'', in_args = Some [Num v]\<rparr>
                (fst (getGate ch w))) (snd (getGate ch w)) = Some (Fulfilled (Num v))
   \<and> getPan_result fl (Fulfilled (Num v)) = Some (Fulfilled (Num (fl (fl (v * 2) - 1))))
   \<and> getEQ_result fl (Fulfilled (Num v)) = Some (Fulfilled (Num (fl (fl (v * 30) - 15))))
   \<and> getGate_result fl (Fulfilled (Num v)) = Some (Fulfilled (Num (fl (fl (v * 80) - 80))))
   \<and> getPan_result fl (Rejected e) = Some (Rejected e)
   \<and> getEQ_result fl (Rejected e) = Some (Rejected e)
   \<and> getGate_result fl (Rejected e) = Some (Rejected e)
   \<and> getPan_result fl Pending = Some Pending
   \<and> getEQ_result fl Pending = Some Pending
   \<and> getGate_result fl Pending = Some Pending
   \<and> getPan_return (\<lambda>y. y) (mixerPan (\<lambda>y. y) pan) = pan
   \<and> mixerPan (\<lambda>y. y) (getPan_return (\<lambda>y. y) v) = v
   \<and> getEQ_return (\<lambda>y. y) (mixerGain (\<lambda>y. y) gain) = gain
   \<and> mixerGain (\<lambda>y. y) (getEQ_return (\<lambda>y. y) v) = v
   \<and> getGate_return (\<lambda>y. y) (mixerThreshold (\<lambda>y. y) thr) = thr
   \<and> mixerThreshold (\<lambda>y. y) (getGate_return (\<lambda>y. y) v) = v
   \<and> (rounds_to u fl \<and> u \<le> 1/8 \<longrightarrow>
        \<bar>getPan_return fl (mixerPan fl pan) - pan\<bar> \<le> 6 * u * (\<bar>pan\<bar> + 1)
      \<and> \<bar>getEQ_return fl (mixerGain fl gain) - gain\<bar> \<le> 6 * u * (\<bar>gain\<bar> + 15)
      \<and> \<bar>getGate_return fl (mixerThreshold fl thr) - thr\<bar> \<le> 6 * u * (\<bar>thr\<bar> + 80))
   \<and> (list_all (\<lambda>y. fl y = y) [0, 1/2, 1, 2, -1] \<longrightarrow>
        getPan_return fl (mixerPan fl (-1)) = -1
      \<and> getPan_return fl (mixerPan fl 0) = 0
      \<and> getPan_return fl (mixerPan fl 1) = 1)
   \<and> (list_all (\<lambda>y. fl y = y) [0, 1/2, 1, 15, 30, -15] \<longrightarrow>
        getEQ_return fl (mixerGain fl (-15)) = -15
      \<and> getEQ_return fl (mixerGain fl 0) = 0
      \<and> getEQ_return fl (mixerGain fl 15) = 15)"
proof -
  have wire: "isConnected w \<longrightarrow>
      sent (fst (setPan fl ch pan w))
        = sent w @ [\<lparr>address = getChannelPath ch @ ''/mix/pan'',
                         args = [Num (fl (fl (pan + 1) / 2))]\<rparr>]
    \<and> sent (fst (setEQ fl ch band gain w))
        = sent w @ [\<lparr>address = getChannelPath ch @ ''/eq/'' @ toString band @ ''/g'',
                         args = [Num (fl (fl (gain + 15) / 30))]\<rparr>]
    \<and> sent (fst (setGate fl ch thr w))
        = sent w @ [\<lparr>address = getChannelPath ch @ ''/gate/thr'',
                         args = [Num (fl (fl (thr + 80) / 80))]\<rparr>]"
    by (simp add: setPan_def setEQ_def setGate_def mixerPan_def mixerGain_def
        mixerThreshold_def sendCommand_sent)
  have reply: "promise (on_message \<lparr>in_address = a, in_args = Some [Num v]\<rparr>
      (fst (sendAndReceive a [] w))) (snd (sendAndReceive a [] w)) = Some (Fulfilled (Num v))"
    for a
    by (simp add: on_message_def resolve_def settle_def promise_def)
  have result:
    "getPan_result fl (Fulfilled (Num v)) = Some (Fulfilled (Num (fl (fl (v * 2) - 1))))"
    "getEQ_result fl (Fulfilled (Num v)) = Some (Fulfilled (Num (fl (fl (v * 30) - 15))))"
    "getGate_result fl (Fulfilled (Num v)) = Some (Fulfilled (Num (fl (fl (v * 80) - 80))))"
    "getPan_result fl (Rejected e) = Some (Rejected e)"
    "getEQ_result fl (Rejected e) = Some (Rejected e)"
    "getGate_result fl (Rejected e) = Some (Rejected e)"
    "getPan_result fl Pending = Some Pending"
    "getEQ_result fl Pending = Some Pending"
    "getGate_result fl Pending = Some Pending"
    by (simp_all add: getPan_result_def getEQ_result_def getGate_result_def await_number_def
        getPan_return_def getEQ_return_def getGate_return_def)
  have ideal:
    "getPan_return (\<lambda>y. y) (mixerPan (\<lambda>y. y) pan) = pan"
    "mixerPan (\<lambda>y. y) (getPan_return (\<lambda>y. y) v) = v"
    "getEQ_return (\<lambda>y. y) (mixerGain (\<lambda>y. y) gain) = gain"
    "mixerGain (\<lambda>y. y) (getEQ_return (\<lambda>y. y) v) = v"
    "getGate_return (\<lambda>y. y) (mixerThreshold (\<lambda>y. y) thr) = thr"
    "mixerThreshold (\<lambda>y. y) (getGate_return (\<lambda>y. y) v) = v"
    by (simp_all add: getPan_return_def mixerPan_def getEQ_return_def mixerGain_def
        getGate_return_def mixerThreshold_def field_simps)
  have bound: "rounds_to u fl \<and> u \<le> 1/8 \<longrightarrow>
        \<bar>getPan_return fl (mixerPan fl pan) - pan\<bar> \<le> 6 * u * (\<bar>pan\<bar> + 1)
      \<and> \<bar>getEQ_return fl (mixerGain fl gain) - gain\<bar> \<le> 6 * u * (\<bar>gain\<bar> + 15)
      \<and> \<bar>getGate_return fl (mixerThreshold fl thr) - thr\<bar> \<le> 6 * u * (\<bar>thr\<bar> + 80)"
  proof (intro impI, elim conjE)
    assume r: "rounds_to u fl" and u: "u \<le> 1/8"
    from affine_round_trip [OF r u, of 2 pan 1] affine_round_trip [OF r u, of 30 gain 15]
      affine_round_trip [OF r u, of 80 thr 80]
    show "\<bar>getPan_return fl (mixerPan fl pan) - pan\<bar> \<le> 6 * u * (\<bar>pan\<bar> + 1)
      \<and> \<bar>getEQ_return fl (mixerGain fl gain) - gain\<bar> \<le> 6 * u * (\<bar>gain\<bar> + 15)
      \<and> \<bar>getGate_return fl (mixerThreshold fl thr) - thr\<bar> \<le> 6 * u * (\<bar>thr\<bar> + 80)"
      by (simp add: getPan_return_def mixerPan_def getEQ_return_def mixerGain_def
          getGate_return_def mixerThreshold_def)
  qed
  have pan_exact: "list_all (\<lambda>y. fl y = y) [0, 1/2, 1, 2, -1] \<longrightarrow>
        getPan_return fl (mixerPan fl (-1)) = -1
      \<and> getPan_return fl (mixerPan fl 0) = 0
      \<and> getPan_return fl (mixerPan fl 1) = 1"
  proof (intro impI)
    assume "list_all (\<lambda>y. fl y = y) [0, 1/2, 1, 2, -1]"
    then have f: "fl 0 = 0" "fl (1/2) = 1/2" "fl 1 = 1" "fl 2 = 2" "fl (-1) = -1"
      by simp_all
    have "fl (fl (fl (fl (-1 + 1) / 2) * 2) - 1) = -1"
      by (rule affine_exact) (simp_all add: f)
    moreover have "fl (fl (fl (fl (0 + 1) / 2) * 2) - 1) = 0"
      by (rule affine_exact) (simp_all add: f)
    moreover have "fl (fl (fl (fl (1 + 1) / 2) * 2) - 1) = 1"
      by (rule affine_exact) (simp_all add: f)
    ultimately show "getPan_return fl (mixerPan fl (-1)) = -1
      \<and> getPan_return fl (mixerPan fl 0) = 0
      \<and> getPan_return fl (mixerPan fl 1) = 1"
      unfolding getPan_return_def mixerPan_def by (intro conjI)
  qed
  have eq_exact: "list_all (\<lambda>y. fl y = y) [0, 1/2, 1, 15, 30, -15] \<longrightarrow>
        getEQ_return fl (mixerGain fl (-15)) = -15
      \<and> getEQ_return fl (mixerGain fl 0) = 0
      \<and> getEQ_return fl (mixerGain fl 15) = 15"
  proof (intro impI)
    assume "list_all (\<lambda>y. fl y = y) [0, 1/2, 1, 15, 30, -15]"
    then have f: "fl 0 = 0" "fl (1/2) = 1/2" "fl 1 = 1" "fl 15 = 15" "fl 30 = 30"
      "fl (-15) = -15"
      by simp_all
    have "fl (fl (fl (fl (-15 + 15) / 30) * 30) - 15) = -15"
      by (rule affine_exact) (simp_all add: f)
    moreover have "fl (fl (fl (fl (0 + 15) / 30) * 30) - 15) = 0"
      by (rule affine_exact) (simp_all add: f)
    moreover have "fl (fl (fl (fl (15 + 15) / 30) * 30) - 15) = 15"
      by (rule affine_exact) (simp_all add: f)
    ultimately show "getEQ_return fl (mixerGain fl (-15)) = -15
      \<and> getEQ_return fl (mixerGain fl 0) = 0
      \<and> getEQ_return fl (mixerGain fl 15) = 15"
      unfolding getEQ_return_def mixerGain_def by (intro conjI)
  qed
  from wire reply [of "getChannelPath ch @ ''/mix/pan''"]
    reply [of "getChannelPath ch @ ''/eq/'' @ toString band @ ''/g''"]
    reply [of "getChannelPath ch @ ''/gate/thr''"] result ideal bound pan_exact eq_exact
  show ?thesis unfolding getPan_def getEQ_def getGate_def by (intro conjI)
qed

text \<open>
  C8 at work, with a rounding that is off by its full relative error at 2/3 and exact
  elsewhere: pan -1 goes on the wire as 0, an EQ gain of 5 dB as the rounded 2/3, and is
  read back within the bound.
\<close>

theorem codec_round_trip_witness:
  "isConnected (fst (connect None (new_OSCClient ''mixer'' 10023)))
   \<and> rounds_to (1 / 2 ^ 53) (\<lambda>y. if y = 2/3 then 2/3 + 2/3 * (1 / 2 ^ 53) else y)
   \<and> (1::real) / 2 ^ 53 \<le> 1/8
   \<and> list_all (\<lambda>y::real. (if y = 2/3 then 2/3 + 2/3 * (1 / 2 ^ 53) else y) = y) [0, 1/2, 1, 2, -1]
   \<and> list_all (\<lambda>y::real. (if y = 2/3 then 2/3 + 2/3 * (1 / 2 ^ 53) else y) = y)
        [0, 1/2, 1, 15, 30, -15]
   \<and> sent (fst (setPan (\<lambda>y. if y = 2/3 then 2/3 + 2/3 * (1 / 2 ^ 53) else y) 1 (-1)
              (fst (connect None (new_OSCClient ''mixer'' 10023)))))
       = [xcontrol, \<lparr>address = ''/ch/01/mix/pan'', args = [Num 0]\<rparr>]
   \<and> sent (fst (setEQ (\<lambda>y. if y = 2/3 then 2/3 + 2/3 * (1 / 2 ^ 53) else y) 1 1 5
              (fst (connect None (new_OSCClient ''mixer'' 10023)))))
       = [xcontrol, \<lparr>address = ''/ch/01/eq/1/g'', args = [Num (2/3 + 2/3 * (1 / 2 ^ 53))]\<rparr>]
   \<and> \<bar>getEQ_return (\<lambda>y. if y = 2/3 then 2/3 + 2/3 * (1 / 2 ^ 53) else y)
        (mixerGain (\<lambda>y. if y = 2/3 then 2/3 + 2/3 * (1 / 2 ^ 53) else y) 5) - 5\<bar>
       \<le> 6 * (1 / 2 ^ 53) * (\<bar>5\<bar> + 15)
   \<and> getPan_return (\<lambda>y. if y = 2/3 then 2/3 + 2/3 * (1 / 2 ^ 53) else y)
        (mixerPan (\<lambda>y. if y = 2/3 then 2/3 + 2/3 * (1 / 2 ^ 53) else y) (-1)) = -1
   \<and> getEQ_return (\<lambda>y. if y = 2/3 then 2/3 + 2/3 * (1 / 2 ^ 53) else y)
        (mixerGain (\<lambda>y. if y = 2/3 then 2/3 + 2/3 * (1 / 2 ^ 53) else y) 15) = 15"
proof -
  let ?fl = "\<lambda>y::real. if y = 2/3 then 2/3 + 2/3 * (1 / 2 ^ 53) else y"
  let ?w = "fst (connect None (new_OSCClient ''mixer'' 10023))"
  have c: "isConnected ?w" by simp
  have r: "rounds_to (1 / 2 ^ 53) ?fl" by (simp add: rounds_to_def)
  have u: "(1::real) / 2 ^ 53 \<le> 1/8" by simp
  have p: "list_all (\<lambda>y. ?fl y = y) [0, 1/2, 1, 2, -1]" by simp
  have q: "list_all (\<lambda>y. ?fl y = y) [0, 1/2, 1, 15, 30, -15]" by simp
  note t = codec_round_trip [where w = ?w and fl = ?fl and ch = 1 and pan = "-1" and band = 1
      and gain = 5 and thr = 0 and v = 0 and u = "1 / 2 ^ 53" and e = "Error []"]
  from t c have 1: "sent (fst (setPan ?fl 1 (-1) ?w))
      = sent ?w @ [\<lparr>address = getChannelPath 1 @ ''/mix/pan'',
                       args = [Num (?fl (?fl (-1 + 1) / 2))]\<rparr>]" by blast
  from t c have 2: "sent (fst (setEQ ?fl 1 1 5 ?w))
      = sent ?w @ [\<lparr>address = getChannelPath 1 @ ''/eq/'' @ toString 1 @ ''/g'',
                       args = [Num (?fl (?fl (5 + 15) / 30))]\<rparr>]" by blast
  from t r u have 3: "\<bar>getEQ_return ?fl (mixerGain ?fl 5) - 5\<bar> \<le> 6 * (1 / 2 ^ 53) * (\<bar>5\<bar> + 15)"
    by blast
  from t p have 4: "getPan_return ?fl (mixerPan ?fl (-1)) = -1" by blast
  from t q have 5: "getEQ_return ?fl (mixerGain ?fl 15) = 15" by blast
  have s1: "sent (fst (setPan ?fl 1 (-1) ?w))
      = [xcontrol, \<lparr>address = ''/ch/01/mix/pan'', args = [Num 0]\<rparr>]"
    unfolding 1 by (simp add: sent_connect_new getChannelPath_1)
  have s2: "sent (fst (setEQ ?fl 1 1 5 ?w))
      = [xcontrol, \<lparr>address = ''/ch/01/eq/1/g'', args = [Num (2/3 + 2/3 * (1 / 2 ^ 53))]\<rparr>]"
    unfolding 2 by (simp add: sent_connect_new getChannelPath_1 toString_1)
  from c r u p q s1 s2 3 4 5 show ?thesis by (intro conjI)
qed

end
